theory Spec2Isabelle
  imports Main "HOL-Library.AList"
begin

section \<open>Source stamps, keys and errors\<close>

text \<open>
  A source stamp and a change are both Python dictionaries read through the keys
  \<^verbatim>\<open>project\<close>, \<^verbatim>\<open>codebase\<close>, \<^verbatim>\<open>repository\<close> and \<^verbatim>\<open>branch\<close>; the branch may be
  \<^verbatim>\<open>None\<close>. The revision is kept so that filters can look at more than the key fields.
  Strings are lists of 8-bit characters: branch names are restricted to code points
  below 256, where the regular expression class \<^verbatim>\<open>\d\<close> is exactly \<^verbatim>\<open>0-9\<close>.
\<close>

record stamp =
  project :: string
  codebase :: string
  repository :: string
  branch :: "string option"
  revision :: "string option"

type_synonym ss_key = "string \<times> string \<times> string \<times> string"

type_synonym brid = int

text \<open>
  The exceptions the tracker can raise: the explicit \<^verbatim>\<open>raise KeyError(...)\<close> for a bucket
  that is not in \<^verbatim>\<open>br_by_ss\<close>, the \<^verbatim>\<open>KeyError\<close> of \<^verbatim>\<open>del d[k]\<close> on an absent key, and
  the \<^verbatim>\<open>AttributeError\<close> of a method call on \<^verbatim>\<open>None\<close>.
\<close>

datatype error = KeyError_bucket ss_key | KeyError_id brid | AttributeError

datatype outcome = Returned | Raised error

section \<open>The filter set\<close>

text \<open>\<^verbatim>\<open>_OldBuildFilterSet\<close>: builder name to the list of its filters, each an opaque predicate.\<close>

type_synonym filter_set = "string \<rightharpoonup> (stamp \<Rightarrow> bool) list"

definition filters_for :: "filter_set \<Rightarrow> string \<Rightarrow> (stamp \<Rightarrow> bool) list" where
  "filters_for fs builder = (case fs builder of None \<Rightarrow> [] | Some l \<Rightarrow> l)"

fun add_filter :: "filter_set \<Rightarrow> string list \<Rightarrow> (stamp \<Rightarrow> bool) \<Rightarrow> filter_set" where
  "add_filter fs [] f = fs"
| "add_filter fs (builder # builders) f =
     add_filter (fs(builder \<mapsto> filters_for fs builder @ [f])) builders f"

definition is_matched :: "filter_set \<Rightarrow> string \<Rightarrow> stamp \<Rightarrow> bool" where
  "is_matched fs builder_name props = list_ex (\<lambda>f. f props) (filters_for fs builder_name)"

section \<open>The build request tracker\<close>

record tracked_buildrequest =
  brid_of :: brid
  ss_tuples :: "ss_key list"

text \<open>
  A bucket of \<^verbatim>\<open>br_by_ss\<close> is a Python dictionary that is iterated, so it is an
  association list in insertion order: \<^verbatim>\<open>d[k] = v\<close> is \<^const>\<open>AList.update\<close> (replace in
  place or append) and \<^verbatim>\<open>del d[k]\<close> on a present key is \<^const>\<open>AList.delete\<close>.
  The two outer dictionaries are only looked up, so they are maps.
  The callback \<^verbatim>\<open>on_cancel\<close> is recorded as the list of ids it has been called with.
\<close>

type_synonym bucket = "(brid \<times> tracked_buildrequest) list"

record tracker =
  filter_obj :: filter_set
  branch_key :: "stamp \<Rightarrow> error + string"
  on_cancel_calls :: "brid list"
  br_by_id :: "brid \<rightharpoonup> tracked_buildrequest"
  br_by_ss :: "ss_key \<rightharpoonup> bucket"

definition new_tracker :: "filter_set \<Rightarrow> (stamp \<Rightarrow> error + string) \<Rightarrow> tracker" where
  "new_tracker f bk =
     \<lparr>filter_obj = f, branch_key = bk, on_cancel_calls = [], br_by_id = Map.empty,
      br_by_ss = Map.empty\<rparr>"

definition reconfig :: "tracker \<Rightarrow> filter_set \<Rightarrow> (stamp \<Rightarrow> error + string) \<Rightarrow> tracker" where
  "reconfig t f bk = t\<lparr>filter_obj := f, branch_key := bk\<rparr>"

definition is_buildrequest_tracked :: "tracker \<Rightarrow> brid \<Rightarrow> bool" where
  "is_buildrequest_tracked t b = (br_by_id t b \<noteq> None)"

subsection \<open>\<^verbatim>\<open>on_new_buildrequest\<close>\<close>

text \<open>
  The first loop: \<^verbatim>\<open>None\<close> is the early \<^verbatim>\<open>return\<close> at a stamp without a branch, otherwise the
  matched stamps in order.
\<close>

fun collect_matched :: "filter_set \<Rightarrow> string \<Rightarrow> stamp list \<Rightarrow> stamp list \<Rightarrow> stamp list option" where
  "collect_matched fs builder_name [] matched_ss = Some matched_ss"
| "collect_matched fs builder_name (ss # sourcestamps) matched_ss =
     (if branch ss = None then None
      else if is_matched fs builder_name ss
           then collect_matched fs builder_name sourcestamps (matched_ss @ [ss])
           else collect_matched fs builder_name sourcestamps matched_ss)"

text \<open>The list comprehension building \<^verbatim>\<open>ss_tuples\<close>; a raising \<^verbatim>\<open>branch_key\<close> ends it.\<close>

fun make_ss_tuples :: "(stamp \<Rightarrow> error + string) \<Rightarrow> stamp list \<Rightarrow> error + ss_key list" where
  "make_ss_tuples bk [] = Inr []"
| "make_ss_tuples bk (ss # matched_ss) =
     (case bk ss of
        Inl e \<Rightarrow> Inl e
      | Inr k \<Rightarrow>
          (case make_ss_tuples bk matched_ss of
             Inl e \<Rightarrow> Inl e
           | Inr ks \<Rightarrow> Inr ((project ss, codebase ss, repository ss, k) # ks)))"

definition bucket_of :: "(ss_key \<rightharpoonup> bucket) \<Rightarrow> ss_key \<Rightarrow> bucket" where
  "bucket_of m k = (case m k of None \<Rightarrow> [] | Some d \<Rightarrow> d)"

text \<open>The second loop: \<^verbatim>\<open>setdefault\<close> of the bucket, then the store into it.\<close>

fun register_br :: "tracked_buildrequest \<Rightarrow> ss_key list \<Rightarrow> (ss_key \<rightharpoonup> bucket) \<Rightarrow> (ss_key \<rightharpoonup> bucket)" where
  "register_br tracked_br [] m = m"
| "register_br tracked_br (ss_tuple # rest) m =
     register_br tracked_br rest
       (m(ss_tuple \<mapsto> AList.update (brid_of tracked_br) tracked_br (bucket_of m ss_tuple)))"

definition on_new_buildrequest ::
  "tracker \<Rightarrow> brid \<Rightarrow> string \<Rightarrow> stamp list \<Rightarrow> outcome \<times> tracker" where
  "on_new_buildrequest t b builder_name sourcestamps =
     (case collect_matched (filter_obj t) builder_name sourcestamps [] of
        None \<Rightarrow> (Returned, t)
      | Some matched_ss \<Rightarrow>
          if matched_ss = [] then (Returned, t)
          else
            (case make_ss_tuples (branch_key t) matched_ss of
               Inl e \<Rightarrow> (Raised e, t)
             | Inr ks \<Rightarrow>
                 let tracked_br = \<lparr>brid_of = b, ss_tuples = ks\<rparr> in
                 (Returned,
                  t\<lparr>br_by_id := (br_by_id t)(b \<mapsto> tracked_br),
                    br_by_ss := register_br tracked_br ks (br_by_ss t)\<rparr>)))"

subsection \<open>Removal from one bucket\<close>

text \<open>
  The block both removal loops share: look the bucket up, raise when it is missing,
  delete the id from it (a \<^verbatim>\<open>KeyError\<close> when the id is not in it), and delete the bucket
  when it became empty. Nothing has been changed when it raises.
\<close>

definition unregister :: "brid \<Rightarrow> ss_key \<Rightarrow> (ss_key \<rightharpoonup> bucket) \<Rightarrow> error + (ss_key \<rightharpoonup> bucket)" where
  "unregister b ss_tuple m =
     (case m ss_tuple of
        None \<Rightarrow> Inl (KeyError_bucket ss_tuple)
      | Some br_dict \<Rightarrow>
          (case map_of br_dict b of
             None \<Rightarrow> Inl (KeyError_id b)
           | Some _ \<Rightarrow>
               if AList.delete b br_dict = [] then Inr (m(ss_tuple := None))
               else Inr (m(ss_tuple \<mapsto> AList.delete b br_dict))))"

subsection \<open>\<^verbatim>\<open>on_complete_buildrequest\<close>\<close>

text \<open>The loop over the keys of the finished request; an exception leaves what was done.\<close>

fun complete_loop :: "brid \<Rightarrow> ss_key list \<Rightarrow> (ss_key \<rightharpoonup> bucket) \<Rightarrow> outcome \<times> (ss_key \<rightharpoonup> bucket)" where
  "complete_loop b [] m = (Returned, m)"
| "complete_loop b (ss_tuple # rest) m =
     (case unregister b ss_tuple m of
        Inl e \<Rightarrow> (Raised e, m)
      | Inr m' \<Rightarrow> complete_loop b rest m')"

definition on_complete_buildrequest :: "tracker \<Rightarrow> brid \<Rightarrow> outcome \<times> tracker" where
  "on_complete_buildrequest t b =
     (case br_by_id t b of
        None \<Rightarrow> (Returned, t)
      | Some tracked_br \<Rightarrow>
          (case complete_loop (brid_of tracked_br) (ss_tuples tracked_br) (br_by_ss t) of
             (r, m) \<Rightarrow> (r, t\<lparr>br_by_id := (br_by_id t)(b := None), br_by_ss := m\<rparr>)))"

subsection \<open>\<^verbatim>\<open>on_change\<close>\<close>

text \<open>The inner loop over the keys of one request, skipping the key of the change.\<close>

fun change_inner :: "ss_key \<Rightarrow> brid \<Rightarrow> ss_key list \<Rightarrow> (ss_key \<rightharpoonup> bucket) \<Rightarrow> outcome \<times> (ss_key \<rightharpoonup> bucket)" where
  "change_inner ss_tuple b [] m = (Returned, m)"
| "change_inner ss_tuple b (i_ss_tuple # rest) m =
     (if i_ss_tuple = ss_tuple then change_inner ss_tuple b rest m
      else
        (case unregister b i_ss_tuple m of
           Inl e \<Rightarrow> (Raised e, m)
         | Inr m' \<Rightarrow> change_inner ss_tuple b rest m'))"

text \<open>The outer loop over the requests of the popped bucket.\<close>

fun change_outer :: "ss_key \<Rightarrow> tracked_buildrequest list \<Rightarrow> tracker \<Rightarrow> outcome \<times> tracker" where
  "change_outer ss_tuple [] t = (Returned, t)"
| "change_outer ss_tuple (tracked_br # rest) t =
     (if br_by_id t (brid_of tracked_br) = None
      then (Raised (KeyError_id (brid_of tracked_br)), t)
      else if length (ss_tuples tracked_br) = 1
      then change_outer ss_tuple rest
             (t\<lparr>br_by_id := (br_by_id t)(brid_of tracked_br := None)\<rparr>)
      else
        (case change_inner ss_tuple (brid_of tracked_br) (ss_tuples tracked_br) (br_by_ss t) of
           (Raised e, m) \<Rightarrow>
             (Raised e, t\<lparr>br_by_id := (br_by_id t)(brid_of tracked_br := None), br_by_ss := m\<rparr>)
         | (Returned, m) \<Rightarrow>
             change_outer ss_tuple rest
               (t\<lparr>br_by_id := (br_by_id t)(brid_of tracked_br := None), br_by_ss := m\<rparr>)))"

definition change_key :: "tracker \<Rightarrow> stamp \<Rightarrow> error + ss_key" where
  "change_key t change =
     (case branch_key t change of
        Inl e \<Rightarrow> Inl e
      | Inr k \<Rightarrow> Inr (project change, codebase change, repository change, k))"

definition on_change :: "tracker \<Rightarrow> stamp \<Rightarrow> outcome \<times> tracker" where
  "on_change t change =
     (case change_key t change of
        Inl e \<Rightarrow> (Raised e, t)
      | Inr ss_tuple \<Rightarrow>
          (case br_by_ss t ss_tuple of
             None \<Rightarrow> (Returned, t)
           | Some br_dict \<Rightarrow>
               (case change_outer ss_tuple (map snd br_dict)
                       (t\<lparr>br_by_ss := (br_by_ss t)(ss_tuple := None)\<rparr>) of
                  (Raised e, t') \<Rightarrow> (Raised e, t')
                | (Returned, t') \<Rightarrow>
                    (Returned, t'\<lparr>on_cancel_calls := on_cancel_calls t' @ map fst br_dict\<rparr>))))"

section \<open>The canceller service\<close>

subsection \<open>The default branch key\<close>

definition is_digit :: "char \<Rightarrow> bool" where
  "is_digit c = (c \<in> set ''0123456789'')"

fun startswith :: "string \<Rightarrow> string \<Rightarrow> bool" where
  "startswith s [] = True"
| "startswith [] (p # ps) = False"
| "startswith (c # s) (p # ps) = (c = p \<and> startswith s ps)"

text \<open>
  \<^verbatim>\<open>re.match(r'refs/changes/(\d+)/(\d+)/\d+', branch)\<close>: the pattern is matched at the start
  of the string and need not reach its end. Each \<^verbatim>\<open>\d+\<close> is followed by a slash (or is
  last), so the greedy match takes the whole run of digits and no backtracking finds
  another match. The result is the two groups.
\<close>

definition re_match_changes :: "string \<Rightarrow> (string \<times> string) option" where
  "re_match_changes s =
     (if \<not> startswith s ''refs/changes/'' then None
      else
        let r1 = drop 13 s; g1 = takeWhile is_digit r1 in
        if g1 = [] then None
        else
          (case dropWhile is_digit r1 of
             [] \<Rightarrow> None
           | c1 # r2 \<Rightarrow>
               if c1 \<noteq> CHR ''/'' then None
               else
                 let g2 = takeWhile is_digit r2 in
                 if g2 = [] then None
                 else
                   (case dropWhile is_digit r2 of
                      [] \<Rightarrow> None
                    | c2 # r3 \<Rightarrow>
                        if c2 \<noteq> CHR ''/'' then None
                        else
                          (case r3 of
                             [] \<Rightarrow> None
                           | d # _ \<Rightarrow> if is_digit d then Some (g1, g2) else None))))"

text \<open>\<^verbatim>\<open>_default_branch_key\<close>; \<^verbatim>\<open>branch.startswith\<close> on \<^verbatim>\<open>None\<close> is an \<^verbatim>\<open>AttributeError\<close>.\<close>

definition default_branch_key :: "stamp \<Rightarrow> error + string" where
  "default_branch_key ss_or_change =
     (case branch ss_or_change of
        None \<Rightarrow> Inl AttributeError
      | Some b \<Rightarrow>
          if startswith b ''refs/changes/''
          then (case re_match_changes b of
                  Some (g1, g2) \<Rightarrow> Inr (''refs/changes/'' @ g1 @ ''/'' @ g2)
                | None \<Rightarrow> Inr b)
          else Inr b)"

subsection \<open>The service and its reconfiguration\<close>

text \<open>
  The data API of the master is outside this code: the answer to the query for the
  incomplete build requests, and the builder and buildset lookups of
  \<^verbatim>\<open>_on_buildrequest_new\<close>, are given.
\<close>

record buildrequest =
  buildrequestid :: brid
  builderid :: int
  buildsetid :: int

record master_data =
  incomplete_buildrequests :: "buildrequest list"
  builder_name :: "int \<Rightarrow> string"
  buildset_sourcestamps :: "int \<Rightarrow> stamp list"

record canceller =
  build_tracker :: "tracker option"
  reconfiguring :: bool
  completed_buildrequests_while_reconfiguring :: "brid list"

text \<open>
  \<^verbatim>\<open>filter_tuples_to_filter_set_object\<close>; the builders of each tuple are taken as the list of
  names that \<^verbatim>\<open>extract_filter_values\<close> returns.
\<close>

fun filter_tuples_to_filter_set_object ::
  "(string list \<times> (stamp \<Rightarrow> bool)) list \<Rightarrow> filter_set \<Rightarrow> filter_set" where
  "filter_tuples_to_filter_set_object [] filter_set = filter_set"
| "filter_tuples_to_filter_set_object ((builders, ss_filter) # filters) filter_set =
     filter_tuples_to_filter_set_object filters (add_filter filter_set builders ss_filter)"

definition on_buildrequest_new :: "master_data \<Rightarrow> canceller \<Rightarrow> buildrequest \<Rightarrow> outcome \<times> canceller" where
  "on_buildrequest_new md c breq =
     (case build_tracker c of
        None \<Rightarrow> (Raised AttributeError, c)
      | Some t \<Rightarrow>
          (case on_new_buildrequest t (buildrequestid breq) (builder_name md (builderid breq))
                  (buildset_sourcestamps md (buildsetid breq)) of
             (r, t') \<Rightarrow> (r, c\<lparr>build_tracker := Some t'\<rparr>)))"

definition on_buildrequest_complete :: "canceller \<Rightarrow> brid \<Rightarrow> outcome \<times> canceller" where
  "on_buildrequest_complete c b =
     (if reconfiguring c
      then (Returned, c\<lparr>completed_buildrequests_while_reconfiguring :=
                          completed_buildrequests_while_reconfiguring c @ [b]\<rparr>)
      else
        (case build_tracker c of
           None \<Rightarrow> (Raised AttributeError, c)
         | Some t \<Rightarrow>
             (case on_complete_buildrequest t b of
                (r, t') \<Rightarrow> (r, c\<lparr>build_tracker := Some t'\<rparr>))))"

definition on_change_event :: "canceller \<Rightarrow> stamp \<Rightarrow> outcome \<times> canceller" where
  "on_change_event c change =
     (case build_tracker c of
        None \<Rightarrow> (Raised AttributeError, c)
      | Some t \<Rightarrow>
          (case on_change t change of (r, t') \<Rightarrow> (r, c\<lparr>build_tracker := Some t'\<rparr>)))"

text \<open>The loop of \<^verbatim>\<open>reconfigService\<close> that seeds the tracker with the incomplete requests.\<close>

fun seed_loop :: "master_data \<Rightarrow> buildrequest list \<Rightarrow> canceller \<Rightarrow> outcome \<times> canceller" where
  "seed_loop md [] c = (Returned, c)"
| "seed_loop md (breq # rest) c =
     (case build_tracker c of
        None \<Rightarrow> (Raised AttributeError, c)
      | Some t \<Rightarrow>
          if is_buildrequest_tracked t (buildrequestid breq) then seed_loop md rest c
          else
            (case on_buildrequest_new md c breq of
               (Raised e, c') \<Rightarrow> (Raised e, c')
             | (Returned, c') \<Rightarrow> seed_loop md rest c'))"

text \<open>The loop that replays the completions queued during the reconfiguration.\<close>

fun replay_loop :: "brid list \<Rightarrow> tracker \<Rightarrow> outcome \<times> tracker" where
  "replay_loop [] t = (Returned, t)"
| "replay_loop (b # rest) t =
     (case on_complete_buildrequest t b of
        (Raised e, t') \<Rightarrow> (Raised e, t')
      | (Returned, t') \<Rightarrow> replay_loop rest t')"

text \<open>
  \<^verbatim>\<open>reconfigService\<close>, run without interleaved new-request or change notifications.
  \<^verbatim>\<open>arrived\<close> are the completion notifications delivered while it waits on its queries:
  \<^verbatim>\<open>_reconfiguring\<close> is set all that time, so \<^verbatim>\<open>_on_buildrequest_complete\<close> only appends
  them to the queue, in order.
\<close>

definition reconfigService ::
  "master_data \<Rightarrow> brid list \<Rightarrow> canceller \<Rightarrow> (string list \<times> (stamp \<Rightarrow> bool)) list \<Rightarrow>
   (stamp \<Rightarrow> error + string) option \<Rightarrow> outcome \<times> canceller" where
  "reconfigService md arrived c filters branch_key_arg =
     (let c1 = c\<lparr>reconfiguring := True\<rparr>;
          bk = (case branch_key_arg of None \<Rightarrow> default_branch_key | Some f \<Rightarrow> f);
          filter_set_object = filter_tuples_to_filter_set_object filters Map.empty;
          c2 = c1\<lparr>build_tracker :=
                    Some (case build_tracker c1 of
                            None \<Rightarrow> new_tracker filter_set_object bk
                          | Some t \<Rightarrow> reconfig t filter_set_object bk)\<rparr>;
          c3 = c2\<lparr>completed_buildrequests_while_reconfiguring :=
                    completed_buildrequests_while_reconfiguring c2 @ arrived\<rparr>
      in
        (case seed_loop md (incomplete_buildrequests md) c3 of
           (Raised e, c4) \<Rightarrow> (Raised e, c4)
         | (Returned, c4) \<Rightarrow>
             (let completed_breqs = completed_buildrequests_while_reconfiguring c4;
                  c5 = c4\<lparr>reconfiguring := False,
                          completed_buildrequests_while_reconfiguring := []\<rparr>
              in
                (case build_tracker c5 of
                   None \<Rightarrow> (Raised AttributeError, c5)
                 | Some t \<Rightarrow>
                     (case replay_loop completed_breqs t of
                        (r, t') \<Rightarrow> (r, c5\<lparr>build_tracker := Some t'\<rparr>))))))"

section \<open>Events, invariants and example data\<close>

subsection \<open>The event loop\<close>

text \<open>
  The three kinds of notification the tracker receives, dispatched one at a time. An
  exception of a handler ends that handler only: the tracker object lives on with
  whatever the handler had done, and receives the next event.
\<close>

datatype event = NewBuildrequest brid string "stamp list" | CompleteBuildrequest brid | Change stamp

fun dispatch :: "tracker \<Rightarrow> event \<Rightarrow> outcome \<times> tracker" where
  "dispatch t (NewBuildrequest b bn sourcestamps) = on_new_buildrequest t b bn sourcestamps"
| "dispatch t (CompleteBuildrequest b) = on_complete_buildrequest t b"
| "dispatch t (Change change) = on_change t change"

fun run_events :: "tracker \<Rightarrow> event list \<Rightarrow> tracker" where
  "run_events t [] = t"
| "run_events t (e # es) = run_events (snd (dispatch t e)) es"

text \<open>Every new request carries an id that is not tracked when it arrives.\<close>

fun new_ids_fresh :: "tracker \<Rightarrow> event list \<Rightarrow> bool" where
  "new_ids_fresh t [] = True"
| "new_ids_fresh t (e # es) =
     ((case e of NewBuildrequest b _ _ \<Rightarrow> br_by_id t b = None | _ \<Rightarrow> True) \<and>
      new_ids_fresh (snd (dispatch t e)) es)"

text \<open>The matched stamps of every new request give pairwise different keys.\<close>

fun new_keys_distinct :: "tracker \<Rightarrow> event list \<Rightarrow> bool" where
  "new_keys_distinct t [] = True"
| "new_keys_distinct t (e # es) =
     ((case e of
         NewBuildrequest b bn sourcestamps \<Rightarrow>
           (case make_ss_tuples (branch_key t)
                   (filter (is_matched (filter_obj t) bn) sourcestamps) of
              Inl _ \<Rightarrow> True
            | Inr ks \<Rightarrow> distinct ks)
       | _ \<Rightarrow> True) \<and>
      new_keys_distinct (snd (dispatch t e)) es)"

subsection \<open>The invariants of the two indices\<close>

text \<open>
  I1: every tracked request is stored under its own id, and the key-index is exactly the
  id-index turned around: an id is in the bucket of a key iff the id is tracked and the
  key is one of the keys recorded for it, and the bucket then holds that very request.
\<close>

definition I1 :: "tracker \<Rightarrow> bool" where
  "I1 t = ((\<forall>b tr. br_by_id t b = Some tr \<longrightarrow> brid_of tr = b) \<and>
           (\<forall>k b. map_of (bucket_of (br_by_ss t) k) b =
                   (case br_by_id t b of
                      None \<Rightarrow> None
                    | Some tr \<Rightarrow> if k \<in> set (ss_tuples tr) then Some tr else None)))"

text \<open>I2: no bucket of the key-index is empty.\<close>

definition I2m :: "(ss_key \<rightharpoonup> bucket) \<Rightarrow> bool" where
  "I2m m = (\<forall>k. m k \<noteq> Some [])"

definition I2 :: "tracker \<Rightarrow> bool" where
  "I2 t = I2m (br_by_ss t)"

text \<open>A bucket is a dictionary: no id occurs twice in it.\<close>

definition buckets_are_dicts :: "tracker \<Rightarrow> bool" where
  "buckets_are_dicts t = (\<forall>k. distinct (map fst (bucket_of (br_by_ss t) k)))"

text \<open>The keys recorded for a tracked request are a set: none is repeated.\<close>

definition key_lists_distinct :: "tracker \<Rightarrow> bool" where
  "key_lists_distinct t = (\<forall>b tr. br_by_id t b = Some tr \<longrightarrow> distinct (ss_tuples tr))"

definition wf_tracker :: "tracker \<Rightarrow> bool" where
  "wf_tracker t = (I1 t \<and> I2 t \<and> buckets_are_dicts t \<and> key_lists_distinct t)"

text \<open>The condition under which \<^verbatim>\<open>on_new_buildrequest\<close> goes on to track the request.\<close>

definition would_track :: "filter_set \<Rightarrow> string \<Rightarrow> stamp list \<Rightarrow> bool" where
  "would_track fs bn sss = ((\<forall>ss\<in>set sss. branch ss \<noteq> None) \<and> (\<exists>ss\<in>set sss. is_matched fs bn ss))"

definition is_KeyError :: "error \<Rightarrow> bool" where
  "is_KeyError e = (case e of AttributeError \<Rightarrow> False | _ \<Rightarrow> True)"

subsection \<open>Example data\<close>

definition ex_stamp :: "string \<Rightarrow> string \<Rightarrow> stamp" where
  "ex_stamp cb br =
     \<lparr>project = ''proj'', codebase = cb, repository = ''repo'', branch = Some br, revision = None\<rparr>"

definition ex_nobranch :: stamp where
  "ex_nobranch =
     \<lparr>project = ''proj'', codebase = ''cb9'', repository = ''repo'', branch = None, revision = None\<rparr>"

definition ex_key :: "string \<Rightarrow> string \<Rightarrow> ss_key" where
  "ex_key cb br = (''proj'', cb, ''repo'', br)"

definition ex_filters :: filter_set where
  "ex_filters = add_filter Map.empty [''builder1''] (\<lambda>ss. True)"

definition ex_tracker :: tracker where
  "ex_tracker = new_tracker ex_filters default_branch_key"

text \<open>Three requests, the first on two codebases.\<close>

definition ex_events :: "event list" where
  "ex_events =
     [NewBuildrequest 1 ''builder1'' [ex_stamp ''cb1'' ''main'', ex_stamp ''cb2'' ''main''],
      NewBuildrequest 2 ''builder1'' [ex_stamp ''cb2'' ''main''],
      NewBuildrequest 3 ''builder1'' [ex_stamp ''cb3'' ''main'']]"

definition ex_state :: tracker where
  "ex_state = run_events ex_tracker ex_events"

text \<open>A request whose first two stamps give the same key, then its completion.\<close>

definition ex_events_dup :: "event list" where
  "ex_events_dup =
     [NewBuildrequest 1 ''builder1''
        [ex_stamp ''cb1'' ''main'', ex_stamp ''cb1'' ''main'', ex_stamp ''cb2'' ''main''],
      CompleteBuildrequest 1]"

text \<open>A request whose first two stamps give the same key, then a change on its third.\<close>

definition ex_events_dup_change :: "event list" where
  "ex_events_dup_change =
     [NewBuildrequest 1 ''builder1''
        [ex_stamp ''cb2'' ''main'', ex_stamp ''cb2'' ''main'', ex_stamp ''cb1'' ''main'']]"

definition ex_state_dup_change :: tracker where
  "ex_state_dup_change = run_events ex_tracker ex_events_dup_change"

definition ex_tracked_dup :: tracked_buildrequest where
  "ex_tracked_dup =
     \<lparr>brid_of = 1,
      ss_tuples = [ex_key ''cb2'' ''main'', ex_key ''cb2'' ''main'', ex_key ''cb1'' ''main'']\<rparr>"

text \<open>A tracker whose key-index lacks the second bucket of its only request.\<close>

definition ex_tracked :: tracked_buildrequest where
  "ex_tracked = \<lparr>brid_of = 1, ss_tuples = [ex_key ''cb1'' ''main'', ex_key ''cb2'' ''main'']\<rparr>"

definition ex_corrupt :: tracker where
  "ex_corrupt =
     \<lparr>filter_obj = ex_filters, branch_key = default_branch_key, on_cancel_calls = [],
      br_by_id = [1 \<mapsto> ex_tracked],
      br_by_ss = [ex_key ''cb1'' ''main'' \<mapsto> [(1, ex_tracked)]]\<rparr>"

subsection \<open>The branches the default branch key rewrites\<close>

definition all_digits :: "string \<Rightarrow> bool" where
  "all_digits s = list_all is_digit s"

definition patchset_prefix :: "string \<Rightarrow> string \<Rightarrow> string \<Rightarrow> bool" where
  "patchset_prefix b X Y =
     (\<exists>d rest. b = ''refs/changes/'' @ X @ ''/'' @ Y @ ''/'' @ d # rest \<and>
        X \<noteq> [] \<and> all_digits X \<and> Y \<noteq> [] \<and> all_digits Y \<and> is_digit d)"

definition patchset_form :: "string \<Rightarrow> bool" where
  "patchset_form b =
     (\<exists>X Y rev. b = ''refs/changes/'' @ X @ ''/'' @ Y @ ''/'' @ rev \<and>
        X \<noteq> [] \<and> all_digits X \<and> Y \<noteq> [] \<and> all_digits Y \<and> rev \<noteq> [] \<and> all_digits rev)"

subsection \<open>Reconfiguration: the installed tracker and example data\<close>

text \<open>
  A master with two incomplete requests, of which only the first is on a filtered builder.
\<close>

definition ex_md :: master_data where
  "ex_md =
     \<lparr>incomplete_buildrequests =
        [\<lparr>buildrequestid = 1, builderid = 10, buildsetid = 20\<rparr>,
         \<lparr>buildrequestid = 2, builderid = 11, buildsetid = 21\<rparr>],
      builder_name = (\<lambda>i. if i = 10 then ''builder1'' else ''builder2''),
      buildset_sourcestamps = (\<lambda>i. [ex_stamp ''cb1'' ''main''])\<rparr>"

definition ex_filter_tuples :: "(string list \<times> (stamp \<Rightarrow> bool)) list" where
  "ex_filter_tuples = [([''builder1''], (\<lambda>ss. True))]"

definition ex_canceller0 :: canceller where
  "ex_canceller0 =
     \<lparr>build_tracker = None, reconfiguring = False,
      completed_buildrequests_while_reconfiguring = []\<rparr>"

definition ex_canceller1 :: canceller where
  "ex_canceller1 = snd (reconfigService ex_md [] ex_canceller0 ex_filter_tuples None)"

text \<open>
  The tracker that \<^verbatim>\<open>reconfigService\<close> installs before it seeds it: a new one, or the old
  one with the new filters and branch key.
\<close>

definition installed_tracker ::
  "canceller \<Rightarrow> (string list \<times> (stamp \<Rightarrow> bool)) list \<Rightarrow> (stamp \<Rightarrow> error + string) option \<Rightarrow> tracker" where
  "installed_tracker c filters bka =
     (let bk = (case bka of None \<Rightarrow> default_branch_key | Some f \<Rightarrow> f);
          fso = filter_tuples_to_filter_set_object filters Map.empty
      in case build_tracker c of None \<Rightarrow> new_tracker fso bk | Some t \<Rightarrow> reconfig t fso bk)"

text \<open>Every tracked request is stored under its own id.\<close>

definition own_ids :: "tracker \<Rightarrow> bool" where
  "own_ids t = (\<forall>b tr. br_by_id t b = Some tr \<longrightarrow> brid_of tr = b)"

definition ex_tracked1 :: tracked_buildrequest where
  "ex_tracked1 = \<lparr>brid_of = 1, ss_tuples = [ex_key ''cb1'' ''main'']\<rparr>"

section \<open>The periodic scheduler and the trigger step\<close>

text \<open>
  Modelled from the spec: the periodic scheduler (\<^verbatim>\<open>buildbot.schedulers.timed.Periodic\<close>), of
  which only the tests are among the sources. Times are whole seconds. One build-start
  attempt is given by how long the call takes to settle and whether it fails.
\<close>

record attempt =
  duration :: nat
  failed :: bool

text \<open>
  Modelled from the spec: \<^verbatim>\<open>activate\<close>. With no checkpoint the first trigger is now,
  otherwise it is the checkpoint plus the interval.
\<close>

definition first_trigger :: "nat \<Rightarrow> nat option \<Rightarrow> nat \<Rightarrow> nat" where
  "first_trigger interval checkpoint now =
     (case checkpoint of None \<Rightarrow> now | Some c \<Rightarrow> c + interval)"

text \<open>
  Modelled from the spec: a timer scheduled at \<open>now\<close> for the instant \<open>due\<close> fires at
  \<open>due\<close>, or at once when \<open>due\<close> has passed (the spec's run with a first build of 15
  seconds and an interval of 10 fires at 0, 15, 25, 35).
\<close>

definition fire_time :: "nat \<Rightarrow> nat \<Rightarrow> nat" where
  "fire_time now due = max now due"

text \<open>
  Modelled from the spec: the loop. The timer fires at \<open>t\<close>; the checkpoint \<open>t\<close> is recorded
  before the attempt; the attempt settles \<open>duration\<close> later, an error being logged and
  nothing more; then the next trigger, checkpoint plus interval, is scheduled. The result
  lists, for every attempt, the recorded checkpoint and whether an error was logged.
\<close>

fun periodic_ticks :: "nat \<Rightarrow> nat \<Rightarrow> attempt list \<Rightarrow> (nat \<times> bool) list" where
  "periodic_ticks interval t [] = []"
| "periodic_ticks interval t (a # attempts) =
     (t, failed a) # periodic_ticks interval (fire_time (t + duration a) (t + interval)) attempts"

text \<open>
  Modelled from the spec: a run of the scheduler, activated at \<open>now\<close> with the stored
  checkpoint; the checkpoints it records, one for each attempt.
\<close>

definition periodic_checkpoints :: "nat \<Rightarrow> nat option \<Rightarrow> nat \<Rightarrow> attempt list \<Rightarrow> nat list" where
  "periodic_checkpoints interval checkpoint now attempts =
     map fst (periodic_ticks interval (fire_time now (first_trigger interval checkpoint now)) attempts)"

text \<open>The distances between successive checkpoints.\<close>

fun gaps :: "nat list \<Rightarrow> nat list" where
  "gaps (x # y # rest) = (y - x) # gaps (y # rest)"
| "gaps _ = []"

definition quick :: attempt where
  "quick = \<lparr>duration = 0, failed = False\<rparr>"

definition slow_start :: "attempt list" where
  "slow_start = [\<lparr>duration = 15, failed = False\<rparr>, quick, quick, quick]"

















section \<open>The calendar scheduler\<close>

text \<open>
  Modelled from the spec: the calendar scheduler (\<^verbatim>\<open>buildbot.schedulers.timed.NightlyBase\<close>), of
  which only the tests are among the sources. An instant is a local calendar time, to the
  second; months and days count from 1.
\<close>

record instant =
  year_of :: nat
  month_of :: nat
  day_of :: nat
  hour_of :: nat
  minute_of :: nat
  second_of :: nat

text \<open>Modelled from the spec: the calendar spec, an unset dimension being \<^const>\<open>None\<close>.\<close>

record calendar_spec =
  minute :: "nat list option"
  hour :: "nat list option"
  dayOfMonth :: "nat list option"
  dayOfWeek :: "nat list option"
  month :: "nat list option"

text \<open>Modelled from the spec: the calendar, leap years and the lengths of the months.\<close>

definition is_leap :: "nat \<Rightarrow> bool" where
  "is_leap y = (y mod 4 = 0 \<and> (y mod 100 \<noteq> 0 \<or> y mod 400 = 0))"

text \<open>Modelled from the spec: the number of days of month \<open>m\<close> in year \<open>y\<close>.\<close>

definition days_in_month :: "nat \<Rightarrow> nat \<Rightarrow> nat" where
  "days_in_month y m =
     (if m = 2 then (if is_leap y then 29 else 28)
      else if m = 4 \<or> m = 6 \<or> m = 9 \<or> m = 11 then 30
      else 31)"

text \<open>
  Modelled from the spec: the day of the week, Monday being 0 (the tests call day 1
  Tuesday).
\<close>

definition weekday :: "nat \<Rightarrow> nat \<Rightarrow> nat \<Rightarrow> nat" where
  "weekday y m d =
     (let y' = (if m < 3 then y - 1 else y);
          t = [0, 3, 2, 5, 0, 3, 5, 1, 4, 6, 2, 4] ! (m - 1)
      in (y' + y' div 4 + y' div 400 - y' div 100 + t + d + 6) mod 7)"

text \<open>
  Modelled from the spec: the rollover into the next day, month and year; the lower units
  start again at their first value.
\<close>

definition start_of_next_day :: "instant \<Rightarrow> instant" where
  "start_of_next_day i =
     (if day_of i < days_in_month (year_of i) (month_of i)
      then i\<lparr>day_of := day_of i + 1, hour_of := 0, minute_of := 0, second_of := 0\<rparr>
      else if month_of i < 12
      then i\<lparr>month_of := month_of i + 1, day_of := 1, hour_of := 0, minute_of := 0, second_of := 0\<rparr>
      else i\<lparr>year_of := year_of i + 1, month_of := 1, day_of := 1, hour_of := 0, minute_of := 0,
             second_of := 0\<rparr>)"

text \<open>Modelled from the spec: the rollover into the next minute, hour and day.\<close>

definition start_of_next_minute :: "instant \<Rightarrow> instant" where
  "start_of_next_minute i =
     (if minute_of i < 59 then i\<lparr>minute_of := minute_of i + 1, second_of := 0\<rparr>
      else if hour_of i < 23 then i\<lparr>hour_of := hour_of i + 1, minute_of := 0, second_of := 0\<rparr>
      else start_of_next_day i)"

text \<open>Modelled from the spec: the scan starts one second after the last trigger.\<close>

definition add_second :: "instant \<Rightarrow> instant" where
  "add_second i =
     (if second_of i < 59 then i\<lparr>second_of := second_of i + 1\<rparr> else start_of_next_minute i)"

text \<open>Modelled from the spec: triggers are at whole minutes, so the scan goes on to the next one.\<close>

definition ceil_minute :: "instant \<Rightarrow> instant" where
  "ceil_minute i = (if second_of i = 0 then i else start_of_next_minute i)"

text \<open>
  Modelled from the spec: the dimensions. An unset minute means the top of the hour; an
  unset hour or month is a wildcard; a day qualifies by day of month or day of week when
  both are set, by the one that is set otherwise, and always when neither is.
\<close>

definition minute_ok :: "calendar_spec \<Rightarrow> nat \<Rightarrow> bool" where
  "minute_ok spec m = (case minute spec of None \<Rightarrow> m = 0 | Some ms \<Rightarrow> m \<in> set ms)"

text \<open>Modelled from the spec: the hour dimension, a wildcard when unset.\<close>

definition hour_ok :: "calendar_spec \<Rightarrow> nat \<Rightarrow> bool" where
  "hour_ok spec h = (case hour spec of None \<Rightarrow> True | Some hs \<Rightarrow> h \<in> set hs)"

text \<open>Modelled from the spec: the month and day dimensions.\<close>

definition day_ok :: "calendar_spec \<Rightarrow> instant \<Rightarrow> bool" where
  "day_ok spec i =
     ((case month spec of None \<Rightarrow> True | Some ms \<Rightarrow> month_of i \<in> set ms) \<and>
      (case dayOfMonth spec of
         None \<Rightarrow>
           (case dayOfWeek spec of
              None \<Rightarrow> True
            | Some ws \<Rightarrow> weekday (year_of i) (month_of i) (day_of i) \<in> set ws)
       | Some ds \<Rightarrow>
           (case dayOfWeek spec of
              None \<Rightarrow> day_of i \<in> set ds
            | Some ws \<Rightarrow>
                day_of i \<in> set ds \<or> weekday (year_of i) (month_of i) (day_of i) \<in> set ws)))"

text \<open>
  Modelled from the spec: the rollover from minute to hour. The first matching time of
  day that is not before \<open>h0:m0\<close>, if the day still has one.
\<close>

definition first_time :: "calendar_spec \<Rightarrow> nat \<Rightarrow> nat \<Rightarrow> (nat \<times> nat) option" where
  "first_time spec h0 m0 =
     (case (if hour_ok spec h0 then find (minute_ok spec) [m0..<60] else None) of
        Some m \<Rightarrow> Some (h0, m)
      | None \<Rightarrow>
          (case find (hour_ok spec) [h0 + 1..<24] of
             None \<Rightarrow> None
           | Some h \<Rightarrow>
               (case find (minute_ok spec) [0..<60] of
                  None \<Rightarrow> None
                | Some m \<Rightarrow> Some (h, m))))"

text \<open>
  Modelled from the spec: the scan over days, into later months and years. It gives up
  after \<open>n\<close> days.
\<close>

fun scan_days :: "nat \<Rightarrow> calendar_spec \<Rightarrow> instant \<Rightarrow> instant option" where
  "scan_days 0 spec i = None"
| "scan_days (Suc n) spec i =
     (if day_ok spec i then Some i else scan_days n spec (start_of_next_day i))"

text \<open>
  Modelled from the spec: how far the scan goes. Eight years of days: every day of month
  and day of week has come round by then.
\<close>

definition scan_limit :: nat where
  "scan_limit = 2928"

text \<open>
  Modelled from the spec: the next trigger. Without a last trigger it is now; otherwise
  the scan starts one second after the last trigger, at the next whole minute.
\<close>

definition calendar_next :: "calendar_spec \<Rightarrow> instant \<Rightarrow> instant option \<Rightarrow> instant option" where
  "calendar_next spec now lastInstant =
     (case lastInstant of
        None \<Rightarrow> Some now
      | Some l \<Rightarrow>
          (let s = ceil_minute (add_second l) in
           case (if day_ok spec s then first_time spec (hour_of s) (minute_of s) else None) of
             Some (h, m) \<Rightarrow> Some (s\<lparr>hour_of := h, minute_of := m, second_of := 0\<rparr>)
           | None \<Rightarrow>
               (case first_time spec 0 0 of
                  None \<Rightarrow> None
                | Some (h, m) \<Rightarrow>
                    (case scan_days scan_limit spec (start_of_next_day s) of
                       None \<Rightarrow> None
                     | Some d \<Rightarrow> Some (d\<lparr>hour_of := h, minute_of := m, second_of := 0\<rparr>)))))"

text \<open>The instants and specs of the examples.\<close>

definition at :: "nat \<Rightarrow> nat \<Rightarrow> nat \<Rightarrow> nat \<Rightarrow> nat \<Rightarrow> nat \<Rightarrow> instant" where
  "at y mo d h mi s =
     \<lparr>year_of = y, month_of = mo, day_of = d, hour_of = h, minute_of = mi, second_of = s\<rparr>"

definition every_hour :: calendar_spec where
  "every_hour = \<lparr>minute = None, hour = None, dayOfMonth = None, dayOfWeek = None, month = None\<rparr>"

text \<open>
  Modelled from the spec: the top of the hour that follows an instant, the first instant
  after it with minute 0 and second 0.
\<close>

definition next_hour_top :: "instant \<Rightarrow> instant" where
  "next_hour_top i =
     (if hour_of i < 23 then i\<lparr>hour_of := hour_of i + 1, minute_of := 0, second_of := 0\<rparr>
      else start_of_next_day i)"

text \<open>Hourly on the tenth of every month; at 7 and at 19 every day.\<close>

definition on_the_tenth :: calendar_spec where
  "on_the_tenth = every_hour\<lparr>dayOfMonth := Some [10]\<rparr>"

definition twice_a_day :: calendar_spec where
  "twice_a_day = every_hour\<lparr>hour := Some [7, 19]\<rparr>"

section \<open>Properties of the tracker\<close>

declare split_paired_All [simp del] split_paired_Ex [simp del]

lemma collect_matched_eq:
  "collect_matched fs bn sss acc =
     (if \<exists>ss\<in>set sss. branch ss = None then None
      else Some (acc @ filter (is_matched fs bn) sss))"
  by (induction sss arbitrary: acc) auto

lemma map_of_register_br:
  "map_of (bucket_of (register_br tr ks m) k) b =
     (if b = brid_of tr \<and> k \<in> set ks then Some tr else map_of (bucket_of m k) b)"
  by (induction ks arbitrary: m) (auto simp: bucket_of_def update_conv')

lemma I2m_register_br: "I2m m \<Longrightarrow> I2m (register_br tr ks m)"
  by (induction ks arbitrary: m) (auto simp: I2m_def bucket_of_def update_nonempty)

lemma distinct_register_br:
  "\<forall>k. distinct (map fst (bucket_of m k)) \<Longrightarrow>
   \<forall>k. distinct (map fst (bucket_of (register_br tr ks m) k))"
proof (induction ks arbitrary: m)
  case Nil
  then show ?case by simp
next
  case (Cons k ks)
  have d: "distinct (map fst (bucket_of m k'))" for k'
    using Cons.prems by blast
  have "distinct (map fst (bucket_of (m(k \<mapsto> AList.update (brid_of tr) tr (bucket_of m k))) k'))" for k'
    using d[of k'] d[of k] by (cases "k' = k") (simp_all add: bucket_of_def distinct_update)
  then have "\<forall>k'. distinct (map fst (bucket_of (m(k \<mapsto> AList.update (brid_of tr) tr (bucket_of m k))) k'))"
    by blast
  from Cons.IH[OF this] show ?case unfolding register_br.simps .
qed

lemma unregister_ok:
  assumes "map_of (bucket_of m k) b \<noteq> None" "I2m m"
  shows "\<exists>m'. unregister b k m = Inr m' \<and> I2m m' \<and>
           (\<forall>k'. bucket_of m' k' = (if k' = k then AList.delete b (bucket_of m k) else bucket_of m k'))"
  using assms by (auto simp: unregister_def bucket_of_def I2m_def split: option.splits)

lemma complete_loop_ok:
  "distinct ks \<Longrightarrow> \<forall>k\<in>set ks. map_of (bucket_of m k) b \<noteq> None \<Longrightarrow> I2m m \<Longrightarrow>
   \<exists>m'. complete_loop b ks m = (Returned, m') \<and> I2m m' \<and>
        (\<forall>k. bucket_of m' k = (if k \<in> set ks then AList.delete b (bucket_of m k) else bucket_of m k))"
proof (induction ks arbitrary: m)
  case Nil
  then show ?case by simp
next
  case (Cons k ks)
  from Cons.prems obtain m1 where m1: "unregister b k m = Inr m1" "I2m m1"
    "\<forall>k'. bucket_of m1 k' = (if k' = k then AList.delete b (bucket_of m k) else bucket_of m k')"
    using unregister_ok[of m k b] by auto
  have "\<forall>k'\<in>set ks. map_of (bucket_of m1 k') b \<noteq> None"
    using Cons.prems m1(3) by auto
  with Cons.IH[of m1] Cons.prems m1(2) obtain m' where m': "complete_loop b ks m1 = (Returned, m')" "I2m m'"
    "\<forall>k'. bucket_of m' k' = (if k' \<in> set ks then AList.delete b (bucket_of m1 k') else bucket_of m1 k')"
    by auto
  show ?case using m1 m' Cons.prems by auto
qed

lemma change_inner_ok:
  "distinct ks \<Longrightarrow> \<forall>k\<in>set ks. k \<noteq> K \<longrightarrow> map_of (bucket_of m k) b \<noteq> None \<Longrightarrow> I2m m \<Longrightarrow>
   \<exists>m'. change_inner K b ks m = (Returned, m') \<and> I2m m' \<and>
        (\<forall>k. bucket_of m' k =
               (if k \<in> set ks \<and> k \<noteq> K then AList.delete b (bucket_of m k) else bucket_of m k))"
proof (induction ks arbitrary: m)
  case Nil
  then show ?case by simp
next
  case (Cons k ks)
  show ?case
  proof (cases "k = K")
    case True
    with Cons.IH[of m] Cons.prems show ?thesis by auto
  next
    case False
    from Cons.prems False obtain m1 where m1: "unregister b k m = Inr m1" "I2m m1"
      "\<forall>k'. bucket_of m1 k' = (if k' = k then AList.delete b (bucket_of m k) else bucket_of m k')"
      using unregister_ok[of m k b] by auto
    have "\<forall>k'\<in>set ks. k' \<noteq> K \<longrightarrow> map_of (bucket_of m1 k') b \<noteq> None"
      using Cons.prems m1(3) by auto
    with Cons.IH[of m1] Cons.prems m1(2) obtain m' where m': "change_inner K b ks m1 = (Returned, m')" "I2m m'"
      "\<forall>k'. bucket_of m' k' =
         (if k' \<in> set ks \<and> k' \<noteq> K then AList.delete b (bucket_of m1 k') else bucket_of m1 k')"
      by auto
    show ?thesis using m1 m' Cons.prems False by auto
  qed
qed

lemma delete_as_filter: "AList.delete b d = filter (\<lambda>(b', _). b' \<noteq> b) d"
  by (induction d) auto

lemma change_outer_ok:
  "distinct (map brid_of trs) \<Longrightarrow>
   \<forall>tr\<in>set trs. br_by_id t (brid_of tr) \<noteq> None \<and> distinct (ss_tuples tr) \<and> K \<in> set (ss_tuples tr) \<and>
      (\<forall>k\<in>set (ss_tuples tr). k \<noteq> K \<longrightarrow> map_of (bucket_of (br_by_ss t) k) (brid_of tr) \<noteq> None) \<Longrightarrow>
   I2m (br_by_ss t) \<Longrightarrow>
   \<exists>t'. change_outer K trs t = (Returned, t') \<and> I2m (br_by_ss t') \<and>
        (\<forall>b. br_by_id t' b = (if b \<in> brid_of ` set trs then None else br_by_id t b)) \<and>
        (\<forall>k. bucket_of (br_by_ss t') k =
               filter (\<lambda>(b, _). \<not> (\<exists>tr\<in>set trs. brid_of tr = b \<and> k \<in> set (ss_tuples tr) \<and> k \<noteq> K))
                 (bucket_of (br_by_ss t) k)) \<and>
        filter_obj t' = filter_obj t \<and> branch_key t' = branch_key t \<and>
        on_cancel_calls t' = on_cancel_calls t"
proof (induction trs arbitrary: t)
  case Nil
  then show ?case by simp
next
  case (Cons tr trs)
  let ?b = "brid_of tr"
  have tracked: "br_by_id t ?b \<noteq> None" and dk: "distinct (ss_tuples tr)" and Kin: "K \<in> set (ss_tuples tr)"
    and others: "\<forall>k\<in>set (ss_tuples tr). k \<noteq> K \<longrightarrow> map_of (bucket_of (br_by_ss t) k) ?b \<noteq> None"
    using Cons.prems(2) by auto
  have fresh: "\<forall>tr'\<in>set trs. brid_of tr' \<noteq> ?b" and dist: "distinct (map brid_of trs)"
    using Cons.prems(1) by (auto simp: image_iff)
  obtain m' where m': "change_inner K ?b (ss_tuples tr) (br_by_ss t) = (Returned, m')" "I2m m'"
      "\<forall>k. bucket_of m' k =
         (if k \<in> set (ss_tuples tr) \<and> k \<noteq> K then AList.delete ?b (bucket_of (br_by_ss t) k)
          else bucket_of (br_by_ss t) k)"
    using change_inner_ok[OF dk others Cons.prems(3)] by blast
  have single: "m' = br_by_ss t" if "length (ss_tuples tr) = 1"
  proof -
    from that Kin have "ss_tuples tr = [K]" by (cases "ss_tuples tr") auto
    with m'(1) show ?thesis by simp
  qed
  define t1 where "t1 = t\<lparr>br_by_id := (br_by_id t)(?b := None), br_by_ss := m'\<rparr>"
  have step: "change_outer K (tr # trs) t = change_outer K trs t1"
    using tracked m'(1) single by (auto simp: t1_def)
  have p2: "\<forall>tr'\<in>set trs. br_by_id t1 (brid_of tr') \<noteq> None \<and> distinct (ss_tuples tr') \<and>
       K \<in> set (ss_tuples tr') \<and>
      (\<forall>k\<in>set (ss_tuples tr'). k \<noteq> K \<longrightarrow> map_of (bucket_of (br_by_ss t1) k) (brid_of tr') \<noteq> None)"
    using Cons.prems(2) fresh m'(3) by (auto simp: t1_def delete_conv)
  have p3: "I2m (br_by_ss t1)" using m'(2) by (simp add: t1_def)
  from Cons.IH[OF dist p2 p3] obtain t' where t':
    "change_outer K trs t1 = (Returned, t')" "I2m (br_by_ss t')"
    "\<forall>b. br_by_id t' b = (if b \<in> brid_of ` set trs then None else br_by_id t1 b)"
    "\<forall>k. bucket_of (br_by_ss t') k =
           filter (\<lambda>(b, _). \<not> (\<exists>tr\<in>set trs. brid_of tr = b \<and> k \<in> set (ss_tuples tr) \<and> k \<noteq> K))
             (bucket_of (br_by_ss t1) k)"
    "filter_obj t' = filter_obj t1" "branch_key t' = branch_key t1"
    "on_cancel_calls t' = on_cancel_calls t1"
    by blast
  have ids: "\<forall>b. br_by_id t' b = (if b \<in> brid_of ` set (tr # trs) then None else br_by_id t b)"
    using t'(3) by (auto simp: t1_def)
  have bk: "bucket_of (br_by_ss t') k =
           filter (\<lambda>(b, _). \<not> (\<exists>tr\<in>set (tr # trs). brid_of tr = b \<and> k \<in> set (ss_tuples tr) \<and> k \<noteq> K))
             (bucket_of (br_by_ss t) k)" for k
  proof -
    have "bucket_of (br_by_ss t') k =
           filter (\<lambda>(b, _). \<not> (\<exists>tr\<in>set trs. brid_of tr = b \<and> k \<in> set (ss_tuples tr) \<and> k \<noteq> K))
             (bucket_of m' k)"
      using t'(4) by (simp add: t1_def)
    also have "\<dots> = filter (\<lambda>(b, _). \<not> (\<exists>tr\<in>set (tr # trs). brid_of tr = b \<and> k \<in> set (ss_tuples tr) \<and> k \<noteq> K))
             (bucket_of (br_by_ss t) k)"
    proof (cases "k \<in> set (ss_tuples tr) \<and> k \<noteq> K")
      case True
      then have "bucket_of m' k = filter (\<lambda>(b', _). b' \<noteq> ?b) (bucket_of (br_by_ss t) k)"
        using m'(3) by (simp add: delete_as_filter)
      then show ?thesis using True
        by (auto simp: case_prod_unfold intro!: filter_cong)
    next
      case False
      then have "bucket_of m' k = bucket_of (br_by_ss t) k" using m'(3) by auto
      then show ?thesis using False
        by (auto simp: case_prod_unfold intro!: filter_cong)
    qed
    finally show ?thesis .
  qed
  show ?case
    unfolding step using t'(1,2,5,6,7) ids bk by (simp add: t1_def)
qed

lemma map_of_filter_distinct:
  "distinct (map fst d) \<Longrightarrow>
   map_of (filter P d) b = (case map_of d b of None \<Rightarrow> None | Some v \<Rightarrow> if P (b, v) then Some v else None)"
proof (induction d)
  case Nil
  then show ?case by simp
next
  case (Cons x d)
  obtain b' v' where x: "x = (b', v')" by (cases x)
  show ?case
  proof (cases "b' = b")
    case True
    then have "map_of d b = None" using Cons.prems x by (simp add: map_of_eq_None_iff)
    then have "map_of (filter P d) b = None"
      by (auto simp: map_of_eq_None_iff)
    then show ?thesis using True x by simp
  next
    case False
    then show ?thesis using Cons x by simp
  qed
qed

lemma wf_entry:
  assumes "wf_tracker t" "(b, tr) \<in> set (bucket_of (br_by_ss t) k)"
  shows "br_by_id t b = Some tr \<and> brid_of tr = b \<and> k \<in> set (ss_tuples tr)"
proof -
  have "distinct (map fst (bucket_of (br_by_ss t) k))"
    using assms(1) by (simp add: wf_tracker_def buckets_are_dicts_def)
  with assms(2) have "map_of (bucket_of (br_by_ss t) k) b = Some tr" by simp
  moreover have "map_of (bucket_of (br_by_ss t) k) b =
      (case br_by_id t b of None \<Rightarrow> None
       | Some tr \<Rightarrow> if k \<in> set (ss_tuples tr) then Some tr else None)"
    using assms(1) by (simp add: wf_tracker_def I1_def)
  ultimately have "br_by_id t b = Some tr \<and> k \<in> set (ss_tuples tr)"
    by (auto split: option.splits if_splits)
  moreover from this have "brid_of tr = b"
    using assms(1) by (auto simp: wf_tracker_def I1_def)
  ultimately show ?thesis by simp
qed

lemma wf_registered:
  assumes "wf_tracker t" "br_by_id t b = Some tr" "k \<in> set (ss_tuples tr)"
  shows "map_of (bucket_of (br_by_ss t) k) b = Some tr" "(b, tr) \<in> set (bucket_of (br_by_ss t) k)"
proof -
  have "map_of (bucket_of (br_by_ss t) k) b =
      (case br_by_id t b of None \<Rightarrow> None
       | Some tr \<Rightarrow> if k \<in> set (ss_tuples tr) then Some tr else None)"
    using assms(1) by (simp add: wf_tracker_def I1_def)
  then show "map_of (bucket_of (br_by_ss t) k) b = Some tr" using assms(2,3) by simp
  then show "(b, tr) \<in> set (bucket_of (br_by_ss t) k)" by (rule map_of_SomeD)
qed

lemma wf_untracked_notin:
  assumes "wf_tracker t" "br_by_id t b = None"
  shows "b \<notin> fst ` set (bucket_of (br_by_ss t) k)"
  using wf_entry[OF assms(1)] assms(2) by fastforce

lemma wf_new_tracker: "wf_tracker (new_tracker f bk)"
  by (simp add: wf_tracker_def I1_def I2_def I2m_def buckets_are_dicts_def key_lists_distinct_def
      new_tracker_def bucket_of_def)

lemma bucket_of_I2m: "I2m m \<Longrightarrow> m k = (if bucket_of m k = [] then None else Some (bucket_of m k))"
  by (auto simp: I2m_def bucket_of_def split: option.splits)

lemma on_complete_wf:
  assumes wf: "wf_tracker t"
  shows "\<exists>t'. on_complete_buildrequest t b = (Returned, t') \<and> wf_tracker t' \<and>
           br_by_id t' = (br_by_id t)(b := None) \<and>
           (\<forall>k. bucket_of (br_by_ss t') k = AList.delete b (bucket_of (br_by_ss t) k)) \<and>
           filter_obj t' = filter_obj t \<and> branch_key t' = branch_key t \<and>
           on_cancel_calls t' = on_cancel_calls t"
proof (cases "br_by_id t b")
  case None
  have "AList.delete b (bucket_of (br_by_ss t) k) = bucket_of (br_by_ss t) k" for k
    using wf_untracked_notin[OF wf None] by simp
  moreover have "br_by_id t = (br_by_id t)(b := None)" using None by auto
  ultimately show ?thesis using None wf by (simp add: on_complete_buildrequest_def)
next
  case (Some tr)
  have b: "brid_of tr = b" using wf Some by (auto simp: wf_tracker_def I1_def)
  have dk: "distinct (ss_tuples tr)" using wf Some by (auto simp: wf_tracker_def key_lists_distinct_def)
  have reg: "\<forall>k\<in>set (ss_tuples tr). map_of (bucket_of (br_by_ss t) k) b \<noteq> None"
    using wf_registered(1)[OF wf Some] by simp
  have i2: "I2m (br_by_ss t)" using wf by (simp add: wf_tracker_def I2_def)
  from complete_loop_ok[OF dk reg i2] obtain m' where m':
    "complete_loop b (ss_tuples tr) (br_by_ss t) = (Returned, m')" "I2m m'"
    "\<forall>k. bucket_of m' k = (if k \<in> set (ss_tuples tr) then AList.delete b (bucket_of (br_by_ss t) k)
                            else bucket_of (br_by_ss t) k)"
    by blast
  define t' where "t' = t\<lparr>br_by_id := (br_by_id t)(b := None), br_by_ss := m'\<rparr>"
  have res: "on_complete_buildrequest t b = (Returned, t')"
    using Some b m'(1) by (simp add: on_complete_buildrequest_def t'_def)
  have bk: "bucket_of (br_by_ss t') k = AList.delete b (bucket_of (br_by_ss t) k)" for k
  proof (cases "k \<in> set (ss_tuples tr)")
    case True
    then show ?thesis using m'(3) by (simp add: t'_def)
  next
    case False
    have "b \<notin> fst ` set (bucket_of (br_by_ss t) k)"
    proof
      assume "b \<in> fst ` set (bucket_of (br_by_ss t) k)"
      then obtain tr' where "(b, tr') \<in> set (bucket_of (br_by_ss t) k)" by auto
      from wf_entry[OF wf this] Some False show False by simp
    qed
    then show ?thesis using m'(3) False by (simp add: t'_def)
  qed
  have dd: "distinct (map fst (bucket_of (br_by_ss t) k))" for k
    using wf by (simp add: wf_tracker_def buckets_are_dicts_def)
  have old: "map_of (bucket_of (br_by_ss t) k) b' =
      (case br_by_id t b' of None \<Rightarrow> None
       | Some tr \<Rightarrow> if k \<in> set (ss_tuples tr) then Some tr else None)" for k b'
    using wf by (simp add: wf_tracker_def I1_def)
  have "I1 t'"
    unfolding I1_def
  proof (intro conjI allI impI)
    fix b' tr' assume "br_by_id t' b' = Some tr'"
    then show "brid_of tr' = b'" using wf by (auto simp: t'_def wf_tracker_def I1_def split: if_splits)
  next
    fix k b'
    show "map_of (bucket_of (br_by_ss t') k) b' =
       (case br_by_id t' b' of None \<Rightarrow> None
        | Some tr \<Rightarrow> if k \<in> set (ss_tuples tr) then Some tr else None)"
      unfolding bk using old[of k b'] by (simp add: delete_conv' t'_def)
  qed
  moreover have "I2 t'" using m'(2) by (simp add: I2_def t'_def)
  moreover have "buckets_are_dicts t'"
    unfolding buckets_are_dicts_def bk using dd by (simp add: distinct_delete)
  moreover have "key_lists_distinct t'"
    using wf by (auto simp: wf_tracker_def key_lists_distinct_def t'_def split: if_splits)
  ultimately have "wf_tracker t'" by (simp add: wf_tracker_def)
  then show ?thesis using res bk by (simp add: t'_def)
qed

lemma on_change_wf:
  assumes wf: "wf_tracker t" and key: "change_key t change = Inr K"
  shows "\<exists>t'. on_change t change = (Returned, t') \<and> wf_tracker t' \<and>
           (\<forall>b. br_by_id t' b =
                 (case br_by_id t b of None \<Rightarrow> None
                  | Some tr \<Rightarrow> if K \<in> set (ss_tuples tr) then None else Some tr)) \<and>
           (\<forall>k. bucket_of (br_by_ss t') k =
                 filter (\<lambda>(b, tr). K \<notin> set (ss_tuples tr)) (bucket_of (br_by_ss t) k)) \<and>
           on_cancel_calls t' = on_cancel_calls t @ map fst (bucket_of (br_by_ss t) K) \<and>
           filter_obj t' = filter_obj t \<and> branch_key t' = branch_key t"
proof -
  let ?d = "bucket_of (br_by_ss t) K"
  let ?t1 = "t\<lparr>br_by_ss := (br_by_ss t)(K := None)\<rparr>"
  have i2: "I2m (br_by_ss t)" using wf by (simp add: wf_tracker_def I2_def)
  have dd: "distinct (map fst (bucket_of (br_by_ss t) k))" for k
    using wf by (simp add: wf_tracker_def buckets_are_dicts_def)
  have old: "map_of (bucket_of (br_by_ss t) k) b' =
      (case br_by_id t b' of None \<Rightarrow> None
       | Some tr \<Rightarrow> if k \<in> set (ss_tuples tr) then Some tr else None)" for k b'
    using wf by (simp add: wf_tracker_def I1_def)
  have ent: "br_by_id t b = Some tr \<and> brid_of tr = b \<and> k \<in> set (ss_tuples tr)"
    if "(b, tr) \<in> set (bucket_of (br_by_ss t) k)" for b tr k
    using wf_entry[OF wf that] .
  have brids: "map brid_of (map snd ?d) = map fst ?d"
    using ent[of _ _ K] by (auto simp: comp_def)
  have p1: "distinct (map brid_of (map snd ?d))" unfolding brids by (rule dd)
  have bk1: "bucket_of ((br_by_ss t)(K := None)) k = (if k = K then [] else bucket_of (br_by_ss t) k)" for k
    by (simp add: bucket_of_def)
  have p2: "\<forall>tr\<in>set (map snd ?d). br_by_id ?t1 (brid_of tr) \<noteq> None \<and> distinct (ss_tuples tr) \<and>
      K \<in> set (ss_tuples tr) \<and>
      (\<forall>k\<in>set (ss_tuples tr). k \<noteq> K \<longrightarrow> map_of (bucket_of (br_by_ss ?t1) k) (brid_of tr) \<noteq> None)"
  proof
    fix tr assume "tr \<in> set (map snd ?d)"
    then obtain b where "(b, tr) \<in> set ?d" by auto
    from ent[OF this] have e: "br_by_id t b = Some tr" "brid_of tr = b" "K \<in> set (ss_tuples tr)"
      by auto
    have "distinct (ss_tuples tr)" using wf e(1) by (auto simp: wf_tracker_def key_lists_distinct_def)
    moreover have "\<forall>k\<in>set (ss_tuples tr). k \<noteq> K \<longrightarrow>
        map_of (bucket_of (br_by_ss ?t1) k) (brid_of tr) \<noteq> None"
      using wf_registered(1)[OF wf e(1)] e(2) by (simp add: bk1)
    ultimately show "br_by_id ?t1 (brid_of tr) \<noteq> None \<and> distinct (ss_tuples tr) \<and>
      K \<in> set (ss_tuples tr) \<and>
      (\<forall>k\<in>set (ss_tuples tr). k \<noteq> K \<longrightarrow> map_of (bucket_of (br_by_ss ?t1) k) (brid_of tr) \<noteq> None)"
      using e by simp
  qed
  have p3: "I2m (br_by_ss ?t1)" using i2 by (simp add: I2m_def)
  from change_outer_ok[OF p1 p2 p3] obtain t2 where t2:
    "change_outer K (map snd ?d) ?t1 = (Returned, t2)" "I2m (br_by_ss t2)"
    "\<forall>b. br_by_id t2 b = (if b \<in> brid_of ` set (map snd ?d) then None else br_by_id ?t1 b)"
    "\<forall>k. bucket_of (br_by_ss t2) k =
           filter (\<lambda>(b, _). \<not> (\<exists>tr\<in>set (map snd ?d). brid_of tr = b \<and> k \<in> set (ss_tuples tr) \<and> k \<noteq> K))
             (bucket_of (br_by_ss ?t1) k)"
    "filter_obj t2 = filter_obj ?t1" "branch_key t2 = branch_key ?t1"
    "on_cancel_calls t2 = on_cancel_calls ?t1"
    by blast
  define t' where "t' = (if br_by_ss t K = None then t
                         else t2\<lparr>on_cancel_calls := on_cancel_calls t2 @ map fst ?d\<rparr>)"
  have res: "on_change t change = (Returned, t')"
  proof (cases "br_by_ss t K")
    case None
    then show ?thesis using key by (simp add: on_change_def t'_def)
  next
    case (Some d)
    then have "?d = d" by (simp add: bucket_of_def)
    then show ?thesis using key Some t2(1) by (simp add: on_change_def t'_def)
  qed
  have empty_none: "?d = []" if "br_by_ss t K = None"
    using that by (simp add: bucket_of_def)
  have inK: "(b, tr) \<in> set ?d" if "br_by_id t b = Some tr" "K \<in> set (ss_tuples tr)" for b tr
    using wf_registered(2)[OF wf that] .
  have ids: "br_by_id t' b =
                 (case br_by_id t b of None \<Rightarrow> None
                  | Some tr \<Rightarrow> if K \<in> set (ss_tuples tr) then None else Some tr)" for b
  proof (cases "br_by_ss t K")
    case None
    then have "t' = t" by (simp add: t'_def)
    moreover have "K \<notin> set (ss_tuples tr)" if "br_by_id t b = Some tr" for tr
      using inK[OF that] empty_none[OF None] by auto
    ultimately show ?thesis by (auto split: option.splits)
  next
    case (Some d)
    then have eq: "br_by_id t' b = (if b \<in> brid_of ` set (map snd ?d) then None else br_by_id t b)"
      using t2(3) by (simp add: t'_def)
    show ?thesis
    proof (cases "br_by_id t b")
      case None
      then show ?thesis using eq by simp
    next
      case (Some tr)
      show ?thesis
      proof (cases "K \<in> set (ss_tuples tr)")
        case True
        from inK[OF Some True] have "(b, tr) \<in> set ?d" .
        moreover from ent[OF this] have "brid_of tr = b" by simp
        ultimately have "b \<in> brid_of ` set (map snd ?d)" by force
        then show ?thesis using eq Some True by simp
      next
        case False
        have "b \<notin> brid_of ` set (map snd ?d)"
        proof
          assume "b \<in> brid_of ` set (map snd ?d)"
          then obtain b' tr' where x: "(b', tr') \<in> set ?d" "brid_of tr' = b" by auto
          from ent[OF x(1)] x(2) Some False show False by auto
        qed
        then show ?thesis using eq Some False by simp
      qed
    qed
  qed
  have bk: "bucket_of (br_by_ss t') k =
                 filter (\<lambda>(b, tr). K \<notin> set (ss_tuples tr)) (bucket_of (br_by_ss t) k)" for k
  proof (cases "br_by_ss t K")
    case None
    then have "t' = t" by (simp add: t'_def)
    moreover have "K \<notin> set (ss_tuples tr)" if "(b, tr) \<in> set (bucket_of (br_by_ss t) k)" for b tr
      using inK[of b tr] ent[OF that] empty_none[OF None] by auto
    then have "filter (\<lambda>(b, tr). K \<notin> set (ss_tuples tr)) (bucket_of (br_by_ss t) k) = bucket_of (br_by_ss t) k"
      by (auto simp: filter_id_conv)
    ultimately show ?thesis by simp
  next
    case (Some d)
    then have eq: "bucket_of (br_by_ss t') k =
           filter (\<lambda>(b, _). \<not> (\<exists>tr\<in>set (map snd ?d). brid_of tr = b \<and> k \<in> set (ss_tuples tr) \<and> k \<noteq> K))
             (if k = K then [] else bucket_of (br_by_ss t) k)"
      using t2(4) bk1[of k] by (simp add: t'_def)
    show ?thesis
    proof (cases "k = K")
      case True
      have "filter (\<lambda>(b, tr). K \<notin> set (ss_tuples tr)) ?d = []"
        using ent[of _ _ K] by (auto simp: filter_empty_conv)
      then show ?thesis using eq True by simp
    next
      case False
      have "(\<not> (\<exists>tr\<in>set (map snd ?d). brid_of tr = b \<and> k \<in> set (ss_tuples tr) \<and> k \<noteq> K)) =
            (K \<notin> set (ss_tuples tr0))"
        if x: "(b, tr0) \<in> set (bucket_of (br_by_ss t) k)" for b tr0
      proof -
        from ent[OF x] have e: "br_by_id t b = Some tr0" "brid_of tr0 = b" "k \<in> set (ss_tuples tr0)"
          by auto
        show ?thesis
        proof (cases "K \<in> set (ss_tuples tr0)")
          case True
          from inK[OF e(1) True] have "tr0 \<in> set (map snd ?d)" by force
          then show ?thesis using True e False by auto
        next
          case F: False
          have "\<not> (\<exists>tr\<in>set (map snd ?d). brid_of tr = b \<and> k \<in> set (ss_tuples tr) \<and> k \<noteq> K)"
          proof
            assume "\<exists>tr\<in>set (map snd ?d). brid_of tr = b \<and> k \<in> set (ss_tuples tr) \<and> k \<noteq> K"
            then obtain b' tr' where y: "(b', tr') \<in> set ?d" "brid_of tr' = b" by auto
            from ent[OF y(1)] y(2) e(1) F show False by auto
          qed
          then show ?thesis using F by simp
        qed
      qed
      then have "filter (\<lambda>(b, _). \<not> (\<exists>tr\<in>set (map snd ?d). brid_of tr = b \<and> k \<in> set (ss_tuples tr) \<and> k \<noteq> K))
             (bucket_of (br_by_ss t) k) =
           filter (\<lambda>(b, tr). K \<notin> set (ss_tuples tr)) (bucket_of (br_by_ss t) k)"
        by (intro filter_cong) auto
      then show ?thesis using eq False by simp
    qed
  qed
  have i2': "I2m (br_by_ss t')"
    using i2 t2(2) by (simp add: t'_def)
  have "I1 t'"
    unfolding I1_def
  proof (intro conjI allI impI)
    fix b tr assume "br_by_id t' b = Some tr"
    then have "br_by_id t b = Some tr" unfolding ids by (auto split: option.splits if_splits)
    then show "brid_of tr = b" using wf by (auto simp: wf_tracker_def I1_def)
  next
    fix k b
    show "map_of (bucket_of (br_by_ss t') k) b =
       (case br_by_id t' b of None \<Rightarrow> None
        | Some tr \<Rightarrow> if k \<in> set (ss_tuples tr) then Some tr else None)"
      unfolding bk ids map_of_filter_distinct[OF dd] old
      by (auto split: option.splits)
  qed
  moreover have "I2 t'" using i2' by (simp add: I2_def)
  moreover have "buckets_are_dicts t'"
    unfolding buckets_are_dicts_def bk using dd by (simp add: distinct_map_filter)
  moreover have "key_lists_distinct t'"
    unfolding key_lists_distinct_def
  proof (intro allI impI)
    fix b tr assume "br_by_id t' b = Some tr"
    then have "br_by_id t b = Some tr" unfolding ids by (auto split: option.splits if_splits)
    then show "distinct (ss_tuples tr)" using wf by (auto simp: wf_tracker_def key_lists_distinct_def)
  qed
  ultimately have "wf_tracker t'" by (simp add: wf_tracker_def)
  moreover have "on_cancel_calls t' = on_cancel_calls t @ map fst ?d"
    using t2(7) empty_none by (auto simp: t'_def)
  moreover have "filter_obj t' = filter_obj t \<and> branch_key t' = branch_key t"
    using t2(5,6) by (simp add: t'_def)
  ultimately show ?thesis using res ids bk by blast
qed

lemma make_ss_tuples_keys:
  "make_ss_tuples bk sss = Inr ks \<Longrightarrow>
   \<forall>ss\<in>set sss. \<exists>k. bk ss = Inr k \<and> (project ss, codebase ss, repository ss, k) \<in> set ks"
  by (induction sss arbitrary: ks) (auto split: sum.splits)

lemma make_ss_tuples_total:
  "\<forall>ss\<in>set sss. \<exists>k. bk ss = Inr k \<Longrightarrow> \<exists>ks. make_ss_tuples bk sss = Inr ks"
  by (induction sss) (auto split: sum.splits)

lemma make_ss_tuples_set:
  "make_ss_tuples bk sss = Inr ks \<Longrightarrow>
   set ks = {(project ss, codebase ss, repository ss, k) | ss k. ss \<in> set sss \<and> bk ss = Inr k}"
  by (induction sss arbitrary: ks) (auto split: sum.splits)

lemma on_new_untracked:
  "\<not> would_track (filter_obj t) bn sss \<Longrightarrow> on_new_buildrequest t b bn sss = (Returned, t)"
  by (auto simp: on_new_buildrequest_def collect_matched_eq would_track_def filter_empty_conv)

lemma on_new_raised:
  "would_track (filter_obj t) bn sss \<Longrightarrow>
   make_ss_tuples (branch_key t) (filter (is_matched (filter_obj t) bn) sss) = Inl e \<Longrightarrow>
   on_new_buildrequest t b bn sss = (Raised e, t)"
  by (auto simp: on_new_buildrequest_def collect_matched_eq would_track_def filter_empty_conv)

lemma on_new_tracked:
  "would_track (filter_obj t) bn sss \<Longrightarrow>
   make_ss_tuples (branch_key t) (filter (is_matched (filter_obj t) bn) sss) = Inr ks \<Longrightarrow>
   on_new_buildrequest t b bn sss =
     (Returned, t\<lparr>br_by_id := (br_by_id t)(b \<mapsto> \<lparr>brid_of = b, ss_tuples = ks\<rparr>),
                  br_by_ss := register_br \<lparr>brid_of = b, ss_tuples = ks\<rparr> ks (br_by_ss t)\<rparr>)"
  by (auto simp: on_new_buildrequest_def collect_matched_eq would_track_def filter_empty_conv Let_def)

lemma on_new_frame:
  assumes "on_new_buildrequest t b bn sss = (r, t')"
  shows "filter_obj t' = filter_obj t \<and> branch_key t' = branch_key t \<and>
         on_cancel_calls t' = on_cancel_calls t \<and>
         (\<forall>b'. b' \<noteq> b \<longrightarrow> br_by_id t' b' = br_by_id t b' \<and>
                (\<forall>k. map_of (bucket_of (br_by_ss t') k) b' = map_of (bucket_of (br_by_ss t) k) b')) \<and>
         (br_by_id t' b = None \<longrightarrow> t' = t)"
  using assms
  by (auto simp: on_new_buildrequest_def Let_def map_of_register_br split: option.splits if_splits sum.splits)

lemma on_new_wf:
  assumes wf: "wf_tracker t" and fresh: "br_by_id t b = None"
    and dk: "\<forall>ks. make_ss_tuples (branch_key t) (filter (is_matched (filter_obj t) bn) sss) = Inr ks
               \<longrightarrow> distinct ks"
  shows "wf_tracker (snd (on_new_buildrequest t b bn sss))"
proof (cases "would_track (filter_obj t) bn sss")
  case False
  then show ?thesis using wf by (simp add: on_new_untracked)
next
  case True
  show ?thesis
  proof (cases "make_ss_tuples (branch_key t) (filter (is_matched (filter_obj t) bn) sss)")
    case (Inl e)
    then show ?thesis using wf True by (simp add: on_new_raised)
  next
    case (Inr ks)
    let ?tr = "\<lparr>brid_of = b, ss_tuples = ks\<rparr>"
    let ?t' = "t\<lparr>br_by_id := (br_by_id t)(b \<mapsto> ?tr), br_by_ss := register_br ?tr ks (br_by_ss t)\<rparr>"
    have res: "on_new_buildrequest t b bn sss = (Returned, ?t')"
      using on_new_tracked[OF True Inr] .
    have old: "map_of (bucket_of (br_by_ss t) k) b' =
      (case br_by_id t b' of None \<Rightarrow> None
       | Some tr \<Rightarrow> if k \<in> set (ss_tuples tr) then Some tr else None)" for k b'
      using wf by (simp add: wf_tracker_def I1_def)
    have "I1 ?t'"
      unfolding I1_def
    proof (intro conjI allI impI)
      fix b' tr' assume "br_by_id ?t' b' = Some tr'"
      then show "brid_of tr' = b'" using wf by (auto simp: wf_tracker_def I1_def split: if_splits)
    next
      fix k b'
      show "map_of (bucket_of (br_by_ss ?t') k) b' =
         (case br_by_id ?t' b' of None \<Rightarrow> None
          | Some tr \<Rightarrow> if k \<in> set (ss_tuples tr) then Some tr else None)"
        using old[of k b'] fresh by (simp add: map_of_register_br)
    qed
    moreover have "I2 ?t'" using wf by (simp add: wf_tracker_def I2_def I2m_register_br)
    moreover have "buckets_are_dicts ?t'"
      using wf distinct_register_br[of "br_by_ss t" ?tr ks]
      by (simp add: wf_tracker_def buckets_are_dicts_def)
    moreover have "key_lists_distinct ?t'"
      using wf dk Inr by (auto simp: wf_tracker_def key_lists_distinct_def)
    ultimately show ?thesis using res by (simp add: wf_tracker_def)
  qed
qed

lemma dispatch_wf:
  assumes "wf_tracker t" "new_ids_fresh t [e]" "new_keys_distinct t [e]"
  shows "wf_tracker (snd (dispatch t e))"
proof (cases e)
  case (NewBuildrequest b bn sss)
  then show ?thesis using assms on_new_wf[of t b bn sss] by (auto split: sum.splits)
next
  case (CompleteBuildrequest b)
  then show ?thesis using on_complete_wf[OF assms(1), of b] by auto
next
  case (Change c)
  show ?thesis
  proof (cases "change_key t c")
    case (Inl e)
    then show ?thesis using Change assms(1) by (simp add: on_change_def)
  next
    case (Inr K)
    then show ?thesis using Change on_change_wf[OF assms(1) Inr] by auto
  qed
qed

lemma run_events_wf:
  "wf_tracker t \<Longrightarrow> new_ids_fresh t evs \<Longrightarrow> new_keys_distinct t evs \<Longrightarrow>
   wf_tracker (run_events t evs)"
proof (induction evs arbitrary: t)
  case Nil
  then show ?case by simp
next
  case (Cons e evs)
  have "wf_tracker (snd (dispatch t e))"
    using Cons.prems by (intro dispatch_wf) auto
  then show ?case using Cons by simp
qed

lemma ex_default_key: "default_branch_key (ex_stamp cb ''main'') = Inr ''main''"
  by (simp add: default_branch_key_def ex_stamp_def)

lemma ex_matched: "is_matched ex_filters ''builder1'' ss"
  by (simp add: is_matched_def ex_filters_def filters_for_def)

text \<open>
  C2, as amended. Starting from a fresh tracker, after any sequence of new-request,
  completion and change events in which every new id is untracked when it arrives and the
  matched stamps of every new request give pairwise different keys, I1 and I2 hold, every
  bucket being a dictionary.
\<close>

theorem tracker_invariants:
  "new_ids_fresh (new_tracker f bk) evs \<Longrightarrow> new_keys_distinct (new_tracker f bk) evs \<Longrightarrow>
   I1 (run_events (new_tracker f bk) evs) \<and> I2 (run_events (new_tracker f bk) evs) \<and>
   buckets_are_dicts (run_events (new_tracker f bk) evs)"
  using run_events_wf[OF wf_new_tracker, of f bk evs] by (simp add: wf_tracker_def)

lemmas ex_simps = on_new_buildrequest_def on_complete_buildrequest_def on_change_def change_key_def
  unregister_def ex_tracker_def new_tracker_def ex_matched ex_default_key bucket_of_def ex_stamp_def
  default_branch_key_def ex_key_def Let_def

lemma ex_dup_state:
  "br_by_id (run_events ex_tracker ex_events_dup) 1 = None"
  "map_of (bucket_of (br_by_ss (run_events ex_tracker ex_events_dup)) (ex_key ''cb2'' ''main'')) 1 \<noteq> None"
  by (simp_all add: ex_events_dup_def ex_simps)

theorem tracker_invariants_counterexample:
  "new_ids_fresh ex_tracker ex_events_dup \<and> \<not> I1 (run_events ex_tracker ex_events_dup)"
proof
  show "new_ids_fresh ex_tracker ex_events_dup"
    by (simp add: ex_events_dup_def ex_tracker_def new_tracker_def)
  show "\<not> I1 (run_events ex_tracker ex_events_dup)"
  proof
    assume "I1 (run_events ex_tracker ex_events_dup)"
    then have "map_of (bucket_of (br_by_ss (run_events ex_tracker ex_events_dup)) (ex_key ''cb2'' ''main'')) 1 =
       (case br_by_id (run_events ex_tracker ex_events_dup) 1 of None \<Rightarrow> None
        | Some tr \<Rightarrow> if ex_key ''cb2'' ''main'' \<in> set (ss_tuples tr) then Some tr else None)"
      unfolding I1_def by blast
    then show False using ex_dup_state by simp
  qed
qed

lemma unregister_error: "unregister b k m = Inl e \<Longrightarrow> is_KeyError e"
  by (auto simp: unregister_def is_KeyError_def split: option.splits if_splits)

lemma unregister_keeps_missing:
  "unregister b k' m = Inr m' \<Longrightarrow> m k = None \<Longrightarrow> m' k = None"
  by (auto simp: unregister_def split: option.splits if_splits)

lemma unregister_missing: "m k = None \<Longrightarrow> \<exists>e. unregister b k m = Inl e"
  by (simp add: unregister_def)

lemma complete_loop_missing:
  "k \<in> set ks \<Longrightarrow> m k = None \<Longrightarrow> \<exists>e m'. complete_loop b ks m = (Raised e, m') \<and> is_KeyError e"
proof (induction ks arbitrary: m)
  case Nil
  then show ?case by simp
next
  case (Cons k' ks)
  show ?case
  proof (cases "unregister b k' m")
    case (Inl e)
    then show ?thesis using unregister_error[OF Inl] by simp
  next
    case (Inr m1)
    have "k' \<noteq> k" using Inr unregister_missing[of m k b] Cons.prems(2) by auto
    then have "k \<in> set ks" using Cons.prems(1) by simp
    moreover have "m1 k = None" using unregister_keeps_missing[OF Inr Cons.prems(2)] .
    ultimately show ?thesis using Cons.IH[of m1] Inr by simp
  qed
qed

lemma change_inner_keeps_missing:
  "change_inner K b ks m = (r, m') \<Longrightarrow> m k = None \<Longrightarrow> m' k = None"
proof (induction ks arbitrary: m)
  case Nil
  then show ?case by simp
next
  case (Cons k' ks)
  show ?case
  proof (cases "k' = K")
    case True
    then show ?thesis using Cons by simp
  next
    case False
    show ?thesis
    proof (cases "unregister b k' m")
      case (Inl e)
      then show ?thesis using Cons.prems False by simp
    next
      case (Inr m1)
      then show ?thesis
        using Cons.prems False Cons.IH[of m1] unregister_keeps_missing[OF Inr Cons.prems(2)] by simp
    qed
  qed
qed

lemma change_inner_missing:
  "k \<in> set ks \<Longrightarrow> k \<noteq> K \<Longrightarrow> m k = None \<Longrightarrow>
   \<exists>e m'. change_inner K b ks m = (Raised e, m') \<and> is_KeyError e"
proof (induction ks arbitrary: m)
  case Nil
  then show ?case by simp
next
  case (Cons k' ks)
  show ?case
  proof (cases "k' = K")
    case True
    then show ?thesis using Cons by auto
  next
    case False
    show ?thesis
    proof (cases "unregister b k' m")
      case (Inl e)
      then show ?thesis using unregister_error[OF Inl] False by simp
    next
      case (Inr m1)
      have "k' \<noteq> k" using Inr unregister_missing[of m k b] Cons.prems(3) by auto
      then have "k \<in> set ks" using Cons.prems(1) by simp
      moreover have "m1 k = None" using unregister_keeps_missing[OF Inr Cons.prems(3)] .
      ultimately show ?thesis using Cons.IH[of m1] Cons.prems(2) Inr False by simp
    qed
  qed
qed

lemma change_outer_missing:
  "tr \<in> set trs \<Longrightarrow> K \<in> set (ss_tuples tr) \<Longrightarrow> k \<in> set (ss_tuples tr) \<Longrightarrow> k \<noteq> K \<Longrightarrow>
   br_by_ss t k = None \<Longrightarrow>
   \<exists>e t'. change_outer K trs t = (Raised e, t') \<and> is_KeyError e \<and>
          on_cancel_calls t' = on_cancel_calls t"
proof (induction trs arbitrary: t)
  case Nil
  then show ?case by simp
next
  case (Cons tr0 trs)
  let ?t1 = "t\<lparr>br_by_id := (br_by_id t)(brid_of tr0 := None)\<rparr>"
  show ?case
  proof (cases "br_by_id t (brid_of tr0) = None")
    case True
    then show ?thesis by (simp add: is_KeyError_def)
  next
    case tracked: False
    show ?thesis
    proof (cases "length (ss_tuples tr0) = 1")
      case True
      then obtain x where x: "ss_tuples tr0 = [x]" by (cases "ss_tuples tr0") auto
      have "tr0 \<noteq> tr" using x Cons.prems(2,3,4) by auto
      then have "tr \<in> set trs" using Cons.prems(1) by simp
      from Cons.IH[OF this Cons.prems(2,3,4), of ?t1] Cons.prems(5)
      show ?thesis using tracked True by auto
    next
      case False
      obtain r m where inner: "change_inner K (brid_of tr0) (ss_tuples tr0) (br_by_ss t) = (r, m)"
        by (cases "change_inner K (brid_of tr0) (ss_tuples tr0) (br_by_ss t)")
      show ?thesis
      proof (cases r)
        case (Raised e)
        have "is_KeyError e"
        proof -
          have "\<And>ks m r m'. change_inner K (brid_of tr0) ks m = (Raised e, m') \<Longrightarrow> is_KeyError e"
          proof -
            fix ks :: "ss_key list" and m r m'
            show "change_inner K (brid_of tr0) ks m = (Raised e, m') \<Longrightarrow> is_KeyError e"
              by (induction ks arbitrary: m)
                 (auto split: if_splits sum.splits dest: unregister_error)
          qed
          then show ?thesis using inner Raised by blast
        qed
        then show ?thesis using tracked False inner Raised by auto
      next
        case Returned
        have "tr0 \<noteq> tr"
          using change_inner_missing[of k "ss_tuples tr" K "br_by_ss t" "brid_of tr"]
            Cons.prems(3,4,5) inner Returned by auto
        then have "tr \<in> set trs" using Cons.prems(1) by simp
        moreover have "m k = None" using change_inner_keeps_missing[OF inner Cons.prems(5)] .
        ultimately show ?thesis
          using Cons.IH[of "?t1\<lparr>br_by_ss := m\<rparr>"] Cons.prems(2,3,4) tracked False inner Returned
          by auto
      qed
    qed
  qed
qed

text \<open>
  C4. When a tracked request has a key whose bucket is missing from the key-index, its
  completion raises a \<^verbatim>\<open>KeyError\<close>; and so does a change that hits one of its keys \<open>K\<close>
  when the missing bucket is that of another of its keys, without any call of the
  cancellation callback.
\<close>

theorem missing_bucket_raises:
  "(br_by_id t b = Some tr \<and> k \<in> set (ss_tuples tr) \<and> br_by_ss t k = None \<longrightarrow>
      (\<exists>e t'. on_complete_buildrequest t b = (Raised e, t') \<and> is_KeyError e)) \<and>
   (change_key t change = Inr K \<and> br_by_ss t K = Some br_dict \<and> tr \<in> snd ` set br_dict \<and>
    K \<in> set (ss_tuples tr) \<and> k \<in> set (ss_tuples tr) \<and> k \<noteq> K \<and> br_by_ss t k = None \<longrightarrow>
      (\<exists>e t'. on_change t change = (Raised e, t') \<and> is_KeyError e \<and>
              on_cancel_calls t' = on_cancel_calls t))"
proof (intro conjI impI)
  assume a: "br_by_id t b = Some tr \<and> k \<in> set (ss_tuples tr) \<and> br_by_ss t k = None"
  then obtain e m' where "complete_loop (brid_of tr) (ss_tuples tr) (br_by_ss t) = (Raised e, m')"
    "is_KeyError e"
    using complete_loop_missing[of k "ss_tuples tr" "br_by_ss t" "brid_of tr"] by auto
  then show "\<exists>e t'. on_complete_buildrequest t b = (Raised e, t') \<and> is_KeyError e"
    using a by (simp add: on_complete_buildrequest_def)
next
  assume a: "change_key t change = Inr K \<and> br_by_ss t K = Some br_dict \<and> tr \<in> snd ` set br_dict \<and>
    K \<in> set (ss_tuples tr) \<and> k \<in> set (ss_tuples tr) \<and> k \<noteq> K \<and> br_by_ss t k = None"
  let ?t1 = "t\<lparr>br_by_ss := (br_by_ss t)(K := None)\<rparr>"
  have "tr \<in> set (map snd br_dict)" using a by simp
  moreover have "br_by_ss ?t1 k = None" using a by simp
  ultimately obtain e t' where "change_outer K (map snd br_dict) ?t1 = (Raised e, t')"
    "is_KeyError e" "on_cancel_calls t' = on_cancel_calls ?t1"
    using change_outer_missing[of tr "map snd br_dict" K k ?t1] a by blast
  then show "\<exists>e t'. on_change t change = (Raised e, t') \<and> is_KeyError e \<and>
              on_cancel_calls t' = on_cancel_calls t"
    using a by (simp add: on_change_def)
qed

lemma wf_ex_state: "wf_tracker ex_state"
  unfolding ex_state_def ex_tracker_def
  by (rule run_events_wf[OF wf_new_tracker])
     (simp_all add: ex_events_def ex_simps[unfolded ex_tracker_def])

lemma ex_state_key: "change_key ex_state (ex_stamp ''cb1'' ''main'') = Inr (ex_key ''cb1'' ''main'')"
  by (simp add: ex_state_def ex_events_def ex_simps)

text \<open>
  C1, as amended. In a tracker whose indices satisfy I1 and I2, every bucket being a
  dictionary, and whose tracked requests each record pairwise different keys (as after
  any sequence of events with fresh ids in which the matched stamps of every new request
  give pairwise different keys), a change with key \<open>K\<close> makes \<^verbatim>\<open>on_change\<close> return normally;
  exactly the requests whose recorded keys contain \<open>K\<close> leave the id-index; every bucket
  loses exactly the entries of those requests, so they are gone from the buckets of all
  their keys and every other entry stays as it was, in order; the invariants hold again,
  so no emptied bucket is left; and the cancellation callback is called, after the
  removals, once for each removed id and for no other.
\<close>

theorem on_change_removes_exactly:
  assumes "wf_tracker t" and "change_key t change = Inr K"
  shows "\<exists>t'. on_change t change = (Returned, t') \<and> wf_tracker t' \<and>
           (\<forall>b. br_by_id t' b =
                 (case br_by_id t b of None \<Rightarrow> None
                  | Some tr \<Rightarrow> if K \<in> set (ss_tuples tr) then None else Some tr)) \<and>
           (\<forall>k. bucket_of (br_by_ss t') k =
                 filter (\<lambda>(b, tr). K \<notin> set (ss_tuples tr)) (bucket_of (br_by_ss t) k)) \<and>
           (\<exists>cs. on_cancel_calls t' = on_cancel_calls t @ cs \<and> distinct cs \<and>
                 set cs = {b. \<exists>tr. br_by_id t b = Some tr \<and> K \<in> set (ss_tuples tr)})"
proof -
  let ?d = "bucket_of (br_by_ss t) K"
  from on_change_wf[OF assms] obtain t' where t':
    "on_change t change = (Returned, t')" "wf_tracker t'"
    "\<forall>b. br_by_id t' b =
                 (case br_by_id t b of None \<Rightarrow> None
                  | Some tr \<Rightarrow> if K \<in> set (ss_tuples tr) then None else Some tr)"
    "\<forall>k. bucket_of (br_by_ss t') k =
                 filter (\<lambda>(b, tr). K \<notin> set (ss_tuples tr)) (bucket_of (br_by_ss t) k)"
    "on_cancel_calls t' = on_cancel_calls t @ map fst ?d"
    by blast
  have "distinct (map fst ?d)"
    using assms(1) by (simp add: wf_tracker_def buckets_are_dicts_def)
  moreover have "set (map fst ?d) = {b. \<exists>tr. br_by_id t b = Some tr \<and> K \<in> set (ss_tuples tr)}"
  proof (intro set_eqI iffI)
    fix b assume "b \<in> set (map fst ?d)"
    then obtain tr where "(b, tr) \<in> set ?d" by auto
    from wf_entry[OF assms(1) this]
    show "b \<in> {b. \<exists>tr. br_by_id t b = Some tr \<and> K \<in> set (ss_tuples tr)}" by auto
  next
    fix b assume "b \<in> {b. \<exists>tr. br_by_id t b = Some tr \<and> K \<in> set (ss_tuples tr)}"
    then obtain tr where "br_by_id t b = Some tr" "K \<in> set (ss_tuples tr)" by auto
    from wf_registered(2)[OF assms(1) this] show "b \<in> set (map fst ?d)" by force
  qed
  ultimately show ?thesis using t' by blast
qed

theorem on_change_removes_exactly_witness:
  "wf_tracker ex_state \<and>
   change_key ex_state (ex_stamp ''cb1'' ''main'') = Inr (ex_key ''cb1'' ''main'') \<and>
   (\<exists>t'. on_change ex_state (ex_stamp ''cb1'' ''main'') = (Returned, t') \<and> wf_tracker t' \<and>
      (\<forall>b. br_by_id t' b =
            (case br_by_id ex_state b of None \<Rightarrow> None
             | Some tr \<Rightarrow> if ex_key ''cb1'' ''main'' \<in> set (ss_tuples tr) then None else Some tr)) \<and>
      (\<forall>k. bucket_of (br_by_ss t') k =
            filter (\<lambda>(b, tr). ex_key ''cb1'' ''main'' \<notin> set (ss_tuples tr))
              (bucket_of (br_by_ss ex_state) k)) \<and>
      (\<exists>cs. on_cancel_calls t' = on_cancel_calls ex_state @ cs \<and> distinct cs \<and>
            set cs = {b. \<exists>tr. br_by_id ex_state b = Some tr \<and>
                           ex_key ''cb1'' ''main'' \<in> set (ss_tuples tr)}))"
  using on_change_removes_exactly[OF wf_ex_state ex_state_key] wf_ex_state ex_state_key
  by blast

lemma ex_state_dup_change_eq:
  "ex_state_dup_change =
     \<lparr>filter_obj = ex_filters, branch_key = default_branch_key, on_cancel_calls = [],
      br_by_id = [1 \<mapsto> ex_tracked_dup],
      br_by_ss = [ex_key ''cb2'' ''main'' \<mapsto> [(1, ex_tracked_dup)],
                  ex_key ''cb1'' ''main'' \<mapsto> [(1, ex_tracked_dup)]]\<rparr>"
  by (simp add: ex_state_dup_change_def ex_events_dup_change_def ex_tracked_dup_def ex_simps
      fun_upd_twist)

lemma ex_state_dup_change_inv:
  "I1 ex_state_dup_change" "I2 ex_state_dup_change" "buckets_are_dicts ex_state_dup_change"
  unfolding ex_state_dup_change_eq
  by (auto simp: I1_def I2_def I2m_def buckets_are_dicts_def bucket_of_def ex_tracked_dup_def
      ex_key_def split: if_splits)

text \<open>
  Without the hypothesis on the recorded keys the statement fails. A request whose first
  two matched stamps give the same key is tracked under that key and under the key of
  its third stamp, and the indices satisfy I1 and I2. A change with the third key then deletes the request from the id-index,
  raises \<^verbatim>\<open>KeyError\<close> at the second visit of the repeated key, and never calls the
  cancellation callback.
\<close>

theorem on_change_removes_exactly_counterexample:
  "new_ids_fresh ex_tracker ex_events_dup_change \<and>
   I1 ex_state_dup_change \<and> I2 ex_state_dup_change \<and> buckets_are_dicts ex_state_dup_change \<and>
   change_key ex_state_dup_change (ex_stamp ''cb1'' ''main'') = Inr (ex_key ''cb1'' ''main'') \<and>
   br_by_id ex_state_dup_change 1 = Some ex_tracked_dup \<and>
   ex_key ''cb1'' ''main'' \<in> set (ss_tuples ex_tracked_dup) \<and>
   fst (on_change ex_state_dup_change (ex_stamp ''cb1'' ''main'')) =
     Raised (KeyError_bucket (ex_key ''cb2'' ''main'')) \<and>
   br_by_id (snd (on_change ex_state_dup_change (ex_stamp ''cb1'' ''main''))) 1 = None \<and>
   on_cancel_calls (snd (on_change ex_state_dup_change (ex_stamp ''cb1'' ''main''))) = []"
proof (intro conjI)
  show "new_ids_fresh ex_tracker ex_events_dup_change"
    by (simp add: ex_events_dup_change_def ex_tracker_def new_tracker_def)
  show "I1 ex_state_dup_change" "I2 ex_state_dup_change" "buckets_are_dicts ex_state_dup_change"
    by (rule ex_state_dup_change_inv)+
  show "change_key ex_state_dup_change (ex_stamp ''cb1'' ''main'') = Inr (ex_key ''cb1'' ''main'')"
    by (simp add: ex_state_dup_change_eq change_key_def ex_default_key ex_stamp_def ex_key_def
        default_branch_key_def)
  show "br_by_id ex_state_dup_change 1 = Some ex_tracked_dup"
    by (simp add: ex_state_dup_change_eq)
  show "ex_key ''cb1'' ''main'' \<in> set (ss_tuples ex_tracked_dup)"
    by (simp add: ex_tracked_dup_def)
  show "fst (on_change ex_state_dup_change (ex_stamp ''cb1'' ''main'')) =
     Raised (KeyError_bucket (ex_key ''cb2'' ''main''))"
    by (simp add: ex_state_dup_change_eq ex_tracked_dup_def on_change_def change_key_def
        unregister_def ex_stamp_def default_branch_key_def ex_key_def)
  show "br_by_id (snd (on_change ex_state_dup_change (ex_stamp ''cb1'' ''main''))) 1 = None"
    by (simp add: ex_state_dup_change_eq ex_tracked_dup_def on_change_def change_key_def
        unregister_def ex_stamp_def default_branch_key_def ex_key_def)
  show "on_cancel_calls (snd (on_change ex_state_dup_change (ex_stamp ''cb1'' ''main''))) = []"
    by (simp add: ex_state_dup_change_eq ex_tracked_dup_def on_change_def change_key_def
        unregister_def ex_stamp_def default_branch_key_def ex_key_def)
qed

theorem tracker_invariants_witness:
  "new_ids_fresh (new_tracker ex_filters default_branch_key) ex_events \<and>
   new_keys_distinct (new_tracker ex_filters default_branch_key) ex_events \<and>
   I1 (run_events (new_tracker ex_filters default_branch_key) ex_events) \<and>
   I2 (run_events (new_tracker ex_filters default_branch_key) ex_events) \<and>
   buckets_are_dicts (run_events (new_tracker ex_filters default_branch_key) ex_events)"
proof -
  have a: "new_ids_fresh (new_tracker ex_filters default_branch_key) ex_events"
    by (simp add: ex_events_def ex_simps[unfolded ex_tracker_def])
  have b: "new_keys_distinct (new_tracker ex_filters default_branch_key) ex_events"
    by (simp add: ex_events_def ex_simps[unfolded ex_tracker_def])
  show ?thesis using tracker_invariants[OF a b] a b by simp
qed

text \<open>
  C10. For an id that is not in the id-index, \<^verbatim>\<open>on_complete_buildrequest\<close> returns normally
  and the tracker, with both indices, is exactly what it was.
\<close>

theorem on_complete_untracked_noop:
  "br_by_id t b = None \<Longrightarrow> on_complete_buildrequest t b = (Returned, t)"
  by (simp add: on_complete_buildrequest_def)

theorem on_complete_untracked_noop_witness:
  "br_by_id ex_state 7 = None \<and> on_complete_buildrequest ex_state 7 = (Returned, ex_state)"
proof -
  have a: "br_by_id ex_state 7 = None"
    by (simp add: ex_state_def ex_events_def ex_simps)
  show ?thesis using on_complete_untracked_noop[OF a] a by simp
qed

theorem missing_bucket_raises_witness:
  "(br_by_id ex_corrupt 1 = Some ex_tracked \<and> ex_key ''cb2'' ''main'' \<in> set (ss_tuples ex_tracked) \<and>
    br_by_ss ex_corrupt (ex_key ''cb2'' ''main'') = None) \<and>
   (\<exists>e t'. on_complete_buildrequest ex_corrupt 1 = (Raised e, t') \<and> is_KeyError e) \<and>
   (change_key ex_corrupt (ex_stamp ''cb1'' ''main'') = Inr (ex_key ''cb1'' ''main'') \<and>
    br_by_ss ex_corrupt (ex_key ''cb1'' ''main'') = Some [(1, ex_tracked)] \<and>
    ex_tracked \<in> snd ` set [(1, ex_tracked)] \<and>
    ex_key ''cb1'' ''main'' \<in> set (ss_tuples ex_tracked) \<and>
    ex_key ''cb2'' ''main'' \<in> set (ss_tuples ex_tracked) \<and>
    ex_key ''cb2'' ''main'' \<noteq> ex_key ''cb1'' ''main'') \<and>
   (\<exists>e t'. on_change ex_corrupt (ex_stamp ''cb1'' ''main'') = (Raised e, t') \<and> is_KeyError e \<and>
           on_cancel_calls t' = on_cancel_calls ex_corrupt)"
proof -
  have a: "br_by_id ex_corrupt 1 = Some ex_tracked \<and>
      ex_key ''cb2'' ''main'' \<in> set (ss_tuples ex_tracked) \<and>
      br_by_ss ex_corrupt (ex_key ''cb2'' ''main'') = None"
    by (simp add: ex_corrupt_def ex_tracked_def ex_key_def)
  have b: "change_key ex_corrupt (ex_stamp ''cb1'' ''main'') = Inr (ex_key ''cb1'' ''main'') \<and>
      br_by_ss ex_corrupt (ex_key ''cb1'' ''main'') = Some [(1, ex_tracked)] \<and>
      ex_tracked \<in> snd ` set [(1, ex_tracked)] \<and>
      ex_key ''cb1'' ''main'' \<in> set (ss_tuples ex_tracked) \<and>
      ex_key ''cb2'' ''main'' \<in> set (ss_tuples ex_tracked) \<and>
      ex_key ''cb2'' ''main'' \<noteq> ex_key ''cb1'' ''main'' \<and>
      br_by_ss ex_corrupt (ex_key ''cb2'' ''main'') = None"
    by (simp add: ex_corrupt_def ex_tracked_def ex_key_def change_key_def ex_default_key ex_stamp_def
        default_branch_key_def)
  show ?thesis
    using missing_bucket_raises[of ex_corrupt 1 ex_tracked "ex_key ''cb2'' ''main''"
        "ex_stamp ''cb1'' ''main''" "ex_key ''cb1'' ''main''" "[(1, ex_tracked)]"] a b
    by simp
qed

lemma filter_matched_nonempty:
  "\<exists>ss\<in>set sss. is_matched fs bn ss \<Longrightarrow> filter (is_matched fs bn) sss \<noteq> []"
  by (simp add: filter_empty_conv)

text \<open>
  C3. \<^verbatim>\<open>on_new_buildrequest\<close>: with a stamp without branch the tracker is unchanged,
  whatever else matches; with no matching stamp the tracker is unchanged; otherwise, when
  every matching stamp has a key, the id is stored in the id-index with the keys of the
  matching stamps, it is in the bucket of the key of every matching stamp, and the
  buckets of all other keys are untouched.
\<close>

theorem on_new_buildrequest_cases:
  "((\<exists>ss\<in>set sourcestamps. branch ss = None) \<longrightarrow>
      on_new_buildrequest t b bn sourcestamps = (Returned, t)) \<and>
   ((\<forall>ss\<in>set sourcestamps. \<not> is_matched (filter_obj t) bn ss) \<longrightarrow>
      on_new_buildrequest t b bn sourcestamps = (Returned, t)) \<and>
   ((\<forall>ss\<in>set sourcestamps. branch ss \<noteq> None) \<and>
    (\<exists>ss\<in>set sourcestamps. is_matched (filter_obj t) bn ss) \<and>
    (\<forall>ss\<in>set sourcestamps. is_matched (filter_obj t) bn ss \<longrightarrow> (\<exists>k. branch_key t ss = Inr k)) \<longrightarrow>
      (\<exists>t' tr. on_new_buildrequest t b bn sourcestamps = (Returned, t') \<and>
         br_by_id t' b = Some tr \<and> brid_of tr = b \<and>
         make_ss_tuples (branch_key t) (filter (is_matched (filter_obj t) bn) sourcestamps) =
           Inr (ss_tuples tr) \<and>
         (\<forall>ss\<in>set sourcestamps. is_matched (filter_obj t) bn ss \<longrightarrow>
            (\<exists>k. branch_key t ss = Inr k \<and>
                 (project ss, codebase ss, repository ss, k) \<in> set (ss_tuples tr) \<and>
                 map_of (bucket_of (br_by_ss t') (project ss, codebase ss, repository ss, k)) b =
                   Some tr)) \<and>
         (\<forall>k. k \<notin> set (ss_tuples tr) \<longrightarrow> br_by_ss t' k = br_by_ss t k)))"
proof (intro conjI impI)
  assume "\<exists>ss\<in>set sourcestamps. branch ss = None"
  then have "\<not> would_track (filter_obj t) bn sourcestamps" by (auto simp: would_track_def)
  then show "on_new_buildrequest t b bn sourcestamps = (Returned, t)" by (rule on_new_untracked)
next
  assume "\<forall>ss\<in>set sourcestamps. \<not> is_matched (filter_obj t) bn ss"
  then have "\<not> would_track (filter_obj t) bn sourcestamps" by (auto simp: would_track_def)
  then show "on_new_buildrequest t b bn sourcestamps = (Returned, t)" by (rule on_new_untracked)
next
  let ?ms = "filter (is_matched (filter_obj t) bn) sourcestamps"
  assume a: "(\<forall>ss\<in>set sourcestamps. branch ss \<noteq> None) \<and>
    (\<exists>ss\<in>set sourcestamps. is_matched (filter_obj t) bn ss) \<and>
    (\<forall>ss\<in>set sourcestamps. is_matched (filter_obj t) bn ss \<longrightarrow> (\<exists>k. branch_key t ss = Inr k))"
  then have wt: "would_track (filter_obj t) bn sourcestamps" by (simp add: would_track_def)
  have "\<forall>ss\<in>set ?ms. \<exists>k. branch_key t ss = Inr k" using a by simp
  from make_ss_tuples_total[OF this] obtain ks where ks: "make_ss_tuples (branch_key t) ?ms = Inr ks"
    by blast
  let ?tr = "\<lparr>brid_of = b, ss_tuples = ks\<rparr>"
  let ?t' = "t\<lparr>br_by_id := (br_by_id t)(b \<mapsto> ?tr), br_by_ss := register_br ?tr ks (br_by_ss t)\<rparr>"
  have res: "on_new_buildrequest t b bn sourcestamps = (Returned, ?t')"
    using on_new_tracked[OF wt ks] .
  have reg: "\<exists>k. branch_key t ss = Inr k \<and>
                 (project ss, codebase ss, repository ss, k) \<in> set ks \<and>
                 map_of (bucket_of (br_by_ss ?t') (project ss, codebase ss, repository ss, k)) b = Some ?tr"
    if "ss \<in> set sourcestamps" "is_matched (filter_obj t) bn ss" for ss
  proof -
    have "ss \<in> set ?ms" using that by simp
    with make_ss_tuples_keys[OF ks] obtain k where
      "branch_key t ss = Inr k" "(project ss, codebase ss, repository ss, k) \<in> set ks" by blast
    then show ?thesis by (auto simp: map_of_register_br)
  qed
  have other: "register_br ?tr ks' m k = m k" if "k \<notin> set ks'" for k ks' m
    using that by (induction ks' arbitrary: m) auto
  show "\<exists>t' tr. on_new_buildrequest t b bn sourcestamps = (Returned, t') \<and>
         br_by_id t' b = Some tr \<and> brid_of tr = b \<and>
         make_ss_tuples (branch_key t) ?ms = Inr (ss_tuples tr) \<and>
         (\<forall>ss\<in>set sourcestamps. is_matched (filter_obj t) bn ss \<longrightarrow>
            (\<exists>k. branch_key t ss = Inr k \<and>
                 (project ss, codebase ss, repository ss, k) \<in> set (ss_tuples tr) \<and>
                 map_of (bucket_of (br_by_ss t') (project ss, codebase ss, repository ss, k)) b =
                   Some tr)) \<and>
         (\<forall>k. k \<notin> set (ss_tuples tr) \<longrightarrow> br_by_ss t' k = br_by_ss t k)"
    apply (rule exI[of _ ?t'])
    apply (rule exI[of _ ?tr])
    using res ks reg other by simp
qed

theorem on_new_buildrequest_cases_witness:
  "(branch ex_nobranch = None \<and>
      on_new_buildrequest ex_state 4 ''builder1'' [ex_stamp ''cb1'' ''main'', ex_nobranch] =
        (Returned, ex_state)) \<and>
   (\<not> is_matched (filter_obj ex_state) ''builder2'' (ex_stamp ''cb1'' ''main'') \<and>
      on_new_buildrequest ex_state 4 ''builder2'' [ex_stamp ''cb1'' ''main''] = (Returned, ex_state)) \<and>
   (branch (ex_stamp ''cb1'' ''main'') \<noteq> None \<and>
    is_matched (filter_obj ex_state) ''builder1'' (ex_stamp ''cb1'' ''main'') \<and>
    branch_key ex_state (ex_stamp ''cb1'' ''main'') = Inr ''main'' \<and>
    (\<exists>t' tr. on_new_buildrequest ex_state 4 ''builder1'' [ex_stamp ''cb1'' ''main''] = (Returned, t') \<and>
         br_by_id t' 4 = Some tr \<and> brid_of tr = 4 \<and>
         map_of (bucket_of (br_by_ss t') (ex_key ''cb1'' ''main'')) 4 = Some tr))"
proof -
  have fo: "filter_obj ex_state = ex_filters" and bk: "branch_key ex_state = default_branch_key"
    by (simp_all add: ex_state_def ex_events_def ex_simps)
  have a1: "branch ex_nobranch = None"
    by (simp add: ex_nobranch_def)
  have a2: "\<not> is_matched (filter_obj ex_state) ''builder2'' (ex_stamp ''cb1'' ''main'')"
    by (simp add: fo is_matched_def ex_filters_def filters_for_def)
  have a3: "branch (ex_stamp ''cb1'' ''main'') \<noteq> None"
    "is_matched (filter_obj ex_state) ''builder1'' (ex_stamp ''cb1'' ''main'')"
    "branch_key ex_state (ex_stamp ''cb1'' ''main'') = Inr ''main''"
    by (simp_all add: fo bk ex_matched ex_default_key) (simp add: ex_stamp_def)
  have h1: "\<exists>ss\<in>set [ex_stamp ''cb1'' ''main'', ex_nobranch]. branch ss = None"
    using a1 by simp
  have h2: "\<forall>ss\<in>set [ex_stamp ''cb1'' ''main'']. \<not> is_matched (filter_obj ex_state) ''builder2'' ss"
    using a2 by simp
  have h3: "(\<forall>ss\<in>set [ex_stamp ''cb1'' ''main'']. branch ss \<noteq> None) \<and>
    (\<exists>ss\<in>set [ex_stamp ''cb1'' ''main'']. is_matched (filter_obj ex_state) ''builder1'' ss) \<and>
    (\<forall>ss\<in>set [ex_stamp ''cb1'' ''main''].
        is_matched (filter_obj ex_state) ''builder1'' ss \<longrightarrow> (\<exists>k. branch_key ex_state ss = Inr k))"
    using a3 by simp
  have c1: "on_new_buildrequest ex_state 4 ''builder1'' [ex_stamp ''cb1'' ''main'', ex_nobranch] =
        (Returned, ex_state)"
    using on_new_buildrequest_cases[of "[ex_stamp ''cb1'' ''main'', ex_nobranch]" ex_state 4 "''builder1''"] h1
    by blast
  have c2: "on_new_buildrequest ex_state 4 ''builder2'' [ex_stamp ''cb1'' ''main''] = (Returned, ex_state)"
    using on_new_buildrequest_cases[of "[ex_stamp ''cb1'' ''main'']" ex_state 4 "''builder2''"] h2
    by blast
  have c3: "\<exists>t' tr. on_new_buildrequest ex_state 4 ''builder1'' [ex_stamp ''cb1'' ''main''] = (Returned, t') \<and>
         br_by_id t' 4 = Some tr \<and> brid_of tr = 4 \<and>
         map_of (bucket_of (br_by_ss t') (ex_key ''cb1'' ''main'')) 4 = Some tr"
  proof -
    from on_new_buildrequest_cases[of "[ex_stamp ''cb1'' ''main'']" ex_state 4 "''builder1''"] h3
    obtain t' tr where x: "on_new_buildrequest ex_state 4 ''builder1'' [ex_stamp ''cb1'' ''main''] = (Returned, t')"
      "br_by_id t' 4 = Some tr" "brid_of tr = 4"
      "\<forall>ss\<in>set [ex_stamp ''cb1'' ''main'']. is_matched (filter_obj ex_state) ''builder1'' ss \<longrightarrow>
            (\<exists>k. branch_key ex_state ss = Inr k \<and>
                 (project ss, codebase ss, repository ss, k) \<in> set (ss_tuples tr) \<and>
                 map_of (bucket_of (br_by_ss t') (project ss, codebase ss, repository ss, k)) 4 =
                   Some tr)"
      by blast
    from x(4) have "map_of (bucket_of (br_by_ss t') (ex_key ''cb1'' ''main'')) 4 = Some tr"
      by (simp add: fo bk ex_matched ex_default_key) (simp add: ex_stamp_def ex_key_def)
    with x show ?thesis by blast
  qed
  show ?thesis using a1 a2 a3 c1 c2 c3 by blast
qed

section \<open>Properties of the default branch key\<close>

lemma startswith_append: "startswith (p @ s) p"
  by (induction p) auto

lemma startswith_iff: "startswith s p \<longleftrightarrow> (\<exists>r. s = p @ r)"
proof (induction s p rule: startswith.induct)
  case (1 s)
  then show ?case by simp
next
  case (2 p ps)
  then show ?case by simp
next
  case (3 c s p ps)
  then show ?case by auto
qed

lemma slash_not_digit: "\<not> is_digit CHR ''/''"
  by (simp add: is_digit_def)

lemma takeWhile_digits:
  "list_all is_digit X \<Longrightarrow> takeWhile is_digit (X @ CHR ''/'' # r) = X"
  "list_all is_digit X \<Longrightarrow> dropWhile is_digit (X @ CHR ''/'' # r) = CHR ''/'' # r"
  using slash_not_digit by (induction X) auto

lemma re_match_changes_form:
  assumes "X \<noteq> []" "all_digits X" "Y \<noteq> []" "all_digits Y" "is_digit d"
  shows "re_match_changes (''refs/changes/'' @ X @ ''/'' @ Y @ ''/'' @ d # rest) = Some (X, Y)"
  using assms
  by (simp add: re_match_changes_def all_digits_def takeWhile_digits Let_def)

lemma re_match_changes_Some:
  assumes "re_match_changes s = Some (X, Y)"
  shows "\<exists>d rest. s = ''refs/changes/'' @ X @ ''/'' @ Y @ ''/'' @ d # rest \<and>
           X \<noteq> [] \<and> all_digits X \<and> Y \<noteq> [] \<and> all_digits Y \<and> is_digit d"
proof -
  from assms have sw: "startswith s ''refs/changes/''"
    by (auto simp: re_match_changes_def split: if_splits)
  then obtain r1 where s: "s = ''refs/changes/'' @ r1" unfolding startswith_iff by blast
  have r1: "drop 13 s = r1" using s by simp
  from assms sw r1 obtain r2 r3 d rest where
    x: "takeWhile is_digit r1 = X" "X \<noteq> []" "dropWhile is_digit r1 = CHR ''/'' # r2"
       "takeWhile is_digit r2 = Y" "Y \<noteq> []" "dropWhile is_digit r2 = CHR ''/'' # r3"
       "r3 = d # rest" "is_digit d"
    by (auto simp: re_match_changes_def Let_def split: if_splits list.splits)
  have "r1 = X @ CHR ''/'' # r2" using x(1,3) takeWhile_dropWhile_id[of is_digit r1] by simp
  moreover have "r2 = Y @ CHR ''/'' # r3" using x(4,6) takeWhile_dropWhile_id[of is_digit r2] by simp
  moreover have "all_digits X" using x(1) unfolding all_digits_def
    by (metis list_all_iff set_takeWhileD)
  moreover have "all_digits Y" using x(4) unfolding all_digits_def
    by (metis list_all_iff set_takeWhileD)
  ultimately show ?thesis using s x by auto
qed

lemma re_match_changes_iff: "re_match_changes b = Some (X, Y) \<longleftrightarrow> patchset_prefix b X Y"
  using re_match_changes_Some[of b X Y] re_match_changes_form[of X Y]
  unfolding patchset_prefix_def by blast

lemma patchset_prefix_startswith: "patchset_prefix b X Y \<Longrightarrow> startswith b ''refs/changes/''"
  unfolding patchset_prefix_def startswith_iff by auto

text \<open>
  C8, as amended. The default branch key maps every branch that starts with
  \<^verbatim>\<open>refs/changes/X/Y/d\<close>, where \<open>X\<close> and \<open>Y\<close> are non-empty runs of digits and \<open>d\<close> is a digit,
  to \<^verbatim>\<open>refs/changes/X/Y\<close>, whatever follows; it returns every branch without such a
  prefix unchanged; and every branch of the full form \<^verbatim>\<open>refs/changes/X/Y/rev\<close> has such
  a prefix.
\<close>

theorem default_branch_key_cases:
  "branch ss = Some b \<Longrightarrow>
   (patchset_prefix b X Y \<longrightarrow> default_branch_key ss = Inr (''refs/changes/'' @ X @ ''/'' @ Y)) \<and>
   ((\<forall>X Y. \<not> patchset_prefix b X Y) \<longrightarrow> default_branch_key ss = Inr b) \<and>
   (patchset_form b \<longrightarrow> (\<exists>X Y. patchset_prefix b X Y))"
proof (intro conjI impI)
  assume b: "branch ss = Some b" and p: "patchset_prefix b X Y"
  then have "re_match_changes b = Some (X, Y)" by (simp add: re_match_changes_iff)
  then show "default_branch_key ss = Inr (''refs/changes/'' @ X @ ''/'' @ Y)"
    using b patchset_prefix_startswith[OF p] by (simp add: default_branch_key_def)
next
  assume b: "branch ss = Some b" and n: "\<forall>X Y. \<not> patchset_prefix b X Y"
  have "re_match_changes b = None"
  proof (cases "re_match_changes b")
    case None
    then show ?thesis .
  next
    case (Some xy)
    obtain X Y where "xy = (X, Y)" by (cases xy)
    with Some n show ?thesis by (simp add: re_match_changes_iff)
  qed
  then show "default_branch_key ss = Inr b" using b by (simp add: default_branch_key_def)
next
  assume "patchset_form b"
  then obtain X Y rev where x: "b = ''refs/changes/'' @ X @ ''/'' @ Y @ ''/'' @ rev"
    "X \<noteq> []" "all_digits X" "Y \<noteq> []" "all_digits Y" "rev \<noteq> []" "all_digits rev"
    unfolding patchset_form_def by blast
  then obtain d rest where "rev = d # rest" by (cases rev) auto
  with x have "patchset_prefix b X Y" unfolding patchset_prefix_def by (auto simp: all_digits_def)
  then show "\<exists>X Y. patchset_prefix b X Y" by blast
qed

lemma not_patchset_form_ex: "\<not> patchset_form ''refs/changes/1/2/3x''"
proof
  assume "patchset_form ''refs/changes/1/2/3x''"
  then obtain X Y rev where x: "''refs/changes/1/2/3x'' = ''refs/changes/'' @ X @ ''/'' @ Y @ ''/'' @ rev"
    "rev \<noteq> []" "all_digits rev"
    unfolding patchset_form_def by blast
  from x(1) have "last ''refs/changes/1/2/3x'' = last (''refs/changes/'' @ X @ ''/'' @ Y @ ''/'' @ rev)"
    by (rule arg_cong)
  then have "last rev = CHR ''x''" using x(2) by simp
  moreover have "is_digit (last rev)" using x(2,3) by (simp add: all_digits_def list_all_iff)
  ultimately show False by (simp add: is_digit_def)
qed

theorem default_branch_key_counterexample:
  "\<not> patchset_form ''refs/changes/1/2/3x'' \<and>
   default_branch_key (ex_stamp ''cb1'' ''refs/changes/1/2/3x'') = Inr ''refs/changes/1/2'' \<and>
   ''refs/changes/1/2'' \<noteq> ''refs/changes/1/2/3x''"
  using not_patchset_form_ex
  by (simp add: default_branch_key_def ex_stamp_def re_match_changes_def is_digit_def)

theorem default_branch_key_cases_witness:
  "branch (ex_stamp ''cb1'' ''refs/changes/12/34/5'') = Some ''refs/changes/12/34/5'' \<and>
   patchset_prefix ''refs/changes/12/34/5'' ''12'' ''34'' \<and>
   default_branch_key (ex_stamp ''cb1'' ''refs/changes/12/34/5'') = Inr ''refs/changes/12/34'' \<and>
   branch (ex_stamp ''cb1'' ''main'') = Some ''main'' \<and>
   (\<forall>X Y. \<not> patchset_prefix ''main'' X Y) \<and>
   default_branch_key (ex_stamp ''cb1'' ''main'') = Inr ''main'' \<and>
   patchset_form ''refs/changes/12/34/5''"
proof -
  have b1: "branch (ex_stamp ''cb1'' ''refs/changes/12/34/5'') = Some ''refs/changes/12/34/5''"
    and b2: "branch (ex_stamp ''cb1'' ''main'') = Some ''main''"
    by (simp_all add: ex_stamp_def)
  have p1: "patchset_prefix ''refs/changes/12/34/5'' ''12'' ''34''"
    unfolding patchset_prefix_def
    by (rule exI[of _ "CHR ''5''"], rule exI[of _ "[]"]) (simp add: all_digits_def is_digit_def)
  have p2: "\<forall>X Y. \<not> patchset_prefix ''main'' X Y"
    by (simp add: patchset_prefix_def)
  have p3: "patchset_form ''refs/changes/12/34/5''"
    unfolding patchset_form_def
    by (rule exI[of _ "''12''"], rule exI[of _ "''34''"], rule exI[of _ "''5''"])
       (simp add: all_digits_def is_digit_def)
  show ?thesis
    using default_branch_key_cases[OF b1, of "''12''" "''34''"] default_branch_key_cases[OF b2]
      b1 b2 p1 p2 p3
    by simp
qed

section \<open>Properties of the reconfiguration\<close>

lemma on_buildrequest_new_tracker:
  assumes "build_tracker c = Some t"
  shows "on_buildrequest_new md c breq =
           (fst (on_new_buildrequest t (buildrequestid breq) (builder_name md (builderid breq))
                   (buildset_sourcestamps md (buildsetid breq))),
            c\<lparr>build_tracker := Some (snd (on_new_buildrequest t (buildrequestid breq)
                   (builder_name md (builderid breq)) (buildset_sourcestamps md (buildsetid breq))))\<rparr>)"
  using assms by (simp add: on_buildrequest_new_def split: prod.splits)

lemma seed_loop_frame:
  "seed_loop md rs c = (r, c') \<Longrightarrow> build_tracker c = Some t \<Longrightarrow>
   \<exists>t'. c' = c\<lparr>build_tracker := Some t'\<rparr> \<and>
        filter_obj t' = filter_obj t \<and> branch_key t' = branch_key t \<and>
        on_cancel_calls t' = on_cancel_calls t \<and>
        (\<forall>b. br_by_id t b \<noteq> None \<longrightarrow>
             br_by_id t' b = br_by_id t b \<and>
             (\<forall>k. map_of (bucket_of (br_by_ss t') k) b = map_of (bucket_of (br_by_ss t) k) b)) \<and>
        (\<forall>b. br_by_id t' b \<noteq> None \<longrightarrow> br_by_id t b \<noteq> None \<or> b \<in> buildrequestid ` set rs)"
proof (induction rs arbitrary: c t)
  case Nil
  then have "c' = c\<lparr>build_tracker := Some t\<rparr>" by (cases c) auto
  then show ?case by auto
next
  case (Cons breq rs)
  show ?case
  proof (cases "is_buildrequest_tracked t (buildrequestid breq)")
    case True
    then have "seed_loop md rs c = (r, c')" using Cons.prems by simp
    from Cons.IH[OF this Cons.prems(2)] obtain t' where t': "c' = c\<lparr>build_tracker := Some t'\<rparr>"
        "filter_obj t' = filter_obj t" "branch_key t' = branch_key t"
        "on_cancel_calls t' = on_cancel_calls t"
        "\<forall>b. br_by_id t b \<noteq> None \<longrightarrow>
             br_by_id t' b = br_by_id t b \<and>
             (\<forall>k. map_of (bucket_of (br_by_ss t') k) b = map_of (bucket_of (br_by_ss t) k) b)"
        "\<forall>b. br_by_id t' b \<noteq> None \<longrightarrow> br_by_id t b \<noteq> None \<or> b \<in> buildrequestid ` set rs"
      by blast
    have "\<forall>b. br_by_id t' b \<noteq> None \<longrightarrow>
             br_by_id t b \<noteq> None \<or> b \<in> buildrequestid ` set (breq # rs)"
      using t'(6) by auto
    with t'(1-5) show ?thesis by blast
  next
    case False
    let ?b = "buildrequestid breq"
    obtain r1 t1 where new: "on_new_buildrequest t ?b (builder_name md (builderid breq))
        (buildset_sourcestamps md (buildsetid breq)) = (r1, t1)"
      by (cases "on_new_buildrequest t ?b (builder_name md (builderid breq))
        (buildset_sourcestamps md (buildsetid breq))")
    have fr: "filter_obj t1 = filter_obj t" "branch_key t1 = branch_key t"
      "on_cancel_calls t1 = on_cancel_calls t"
      "\<forall>b'. b' \<noteq> ?b \<longrightarrow> br_by_id t1 b' = br_by_id t b' \<and>
             (\<forall>k. map_of (bucket_of (br_by_ss t1) k) b' = map_of (bucket_of (br_by_ss t) k) b')"
      using on_new_frame[OF new] by auto
    have untracked: "br_by_id t ?b = None" using False by (simp add: is_buildrequest_tracked_def)
    let ?c1 = "c\<lparr>build_tracker := Some t1\<rparr>"
    have obn: "on_buildrequest_new md c breq = (r1, ?c1)"
      using on_buildrequest_new_tracker[OF Cons.prems(2), of md breq] new by simp
    have keep: "\<forall>b. br_by_id t b \<noteq> None \<longrightarrow>
             br_by_id t1 b = br_by_id t b \<and>
             (\<forall>k. map_of (bucket_of (br_by_ss t1) k) b = map_of (bucket_of (br_by_ss t) k) b)"
    proof (intro allI impI)
      fix b assume "br_by_id t b \<noteq> None"
      then have "b \<noteq> ?b" using untracked by auto
      with fr(4) show "br_by_id t1 b = br_by_id t b \<and>
             (\<forall>k. map_of (bucket_of (br_by_ss t1) k) b = map_of (bucket_of (br_by_ss t) k) b)"
        by blast
    qed
    have grow: "\<forall>b. br_by_id t1 b \<noteq> None \<longrightarrow> br_by_id t b \<noteq> None \<or> b = ?b"
      using fr(4) by metis
    show ?thesis
    proof (cases r1)
      case (Raised e)
      then have "c' = ?c1" using Cons.prems False obn by simp
      moreover have "\<forall>b. br_by_id t1 b \<noteq> None \<longrightarrow>
             br_by_id t b \<noteq> None \<or> b \<in> buildrequestid ` set (breq # rs)"
        using grow by auto
      ultimately show ?thesis using fr(1,2,3) keep by blast
    next
      case Returned
      then have "seed_loop md rs ?c1 = (r, c')" using Cons.prems False obn by simp
      from Cons.IH[OF this, of t1] obtain t' where t': "c' = ?c1\<lparr>build_tracker := Some t'\<rparr>"
        "filter_obj t' = filter_obj t1" "branch_key t' = branch_key t1"
        "on_cancel_calls t' = on_cancel_calls t1"
        "\<forall>b. br_by_id t1 b \<noteq> None \<longrightarrow>
             br_by_id t' b = br_by_id t1 b \<and>
             (\<forall>k. map_of (bucket_of (br_by_ss t') k) b = map_of (bucket_of (br_by_ss t1) k) b)"
        "\<forall>b. br_by_id t' b \<noteq> None \<longrightarrow> br_by_id t1 b \<noteq> None \<or> b \<in> buildrequestid ` set rs"
        by auto
      have "c' = c\<lparr>build_tracker := Some t'\<rparr>" using t'(1) by simp
      moreover have "\<forall>b. br_by_id t b \<noteq> None \<longrightarrow>
             br_by_id t' b = br_by_id t b \<and>
             (\<forall>k. map_of (bucket_of (br_by_ss t') k) b = map_of (bucket_of (br_by_ss t) k) b)"
        using keep t'(5) by (metis (no_types, lifting))
      moreover have "\<forall>b. br_by_id t' b \<noteq> None \<longrightarrow>
             br_by_id t b \<noteq> None \<or> b \<in> buildrequestid ` set (breq # rs)"
        using grow t'(6) by (metis (no_types, lifting) image_eqI insert_iff list.set(2) image_insert)
      moreover have "filter_obj t' = filter_obj t" "branch_key t' = branch_key t"
        "on_cancel_calls t' = on_cancel_calls t"
        using t'(2,3,4) fr(1,2,3) by simp_all
      ultimately show ?thesis by blast
    qed
  qed
qed

lemma seed_loop_settled:
  "seed_loop md rs c = (Returned, c') \<Longrightarrow> build_tracker c = Some t \<Longrightarrow>
   build_tracker c' = Some t' \<Longrightarrow>
   \<forall>breq\<in>set rs. br_by_id t' (buildrequestid breq) \<noteq> None \<or>
      \<not> would_track (filter_obj t) (builder_name md (builderid breq))
           (buildset_sourcestamps md (buildsetid breq))"
proof (induction rs arbitrary: c t)
  case Nil
  then show ?case by simp
next
  case (Cons breq rs)
  let ?b = "buildrequestid breq"
  let ?bn = "builder_name md (builderid breq)"
  let ?sss = "buildset_sourcestamps md (buildsetid breq)"
  show ?case
  proof (cases "is_buildrequest_tracked t ?b")
    case True
    then have sl: "seed_loop md rs c = (Returned, c')" using Cons.prems by simp
    from seed_loop_frame[OF sl Cons.prems(2)] Cons.prems(3) True
    have "br_by_id t' ?b \<noteq> None" by (auto simp: is_buildrequest_tracked_def)
    then show ?thesis using Cons.IH[OF sl Cons.prems(2,3)] by simp
  next
    case False
    obtain r1 t1 where new: "on_new_buildrequest t ?b ?bn ?sss = (r1, t1)"
      by (cases "on_new_buildrequest t ?b ?bn ?sss")
    let ?c1 = "c\<lparr>build_tracker := Some t1\<rparr>"
    have obn: "on_buildrequest_new md c breq = (r1, ?c1)"
      using on_buildrequest_new_tracker[OF Cons.prems(2), of md breq] new by simp
    have r1: "r1 = Returned" using Cons.prems(1) False obn Cons.prems(2) by (cases r1) auto
    then have sl: "seed_loop md rs ?c1 = (Returned, c')" using Cons.prems False obn by simp
    have fo: "filter_obj t1 = filter_obj t" using on_new_frame[OF new] by simp
    have rest: "\<forall>breq\<in>set rs. br_by_id t' (buildrequestid breq) \<noteq> None \<or>
      \<not> would_track (filter_obj t) (builder_name md (builderid breq))
           (buildset_sourcestamps md (buildsetid breq))"
      using Cons.IH[OF sl _ Cons.prems(3), of t1] fo by simp
    have "br_by_id t' ?b \<noteq> None" if wt: "would_track (filter_obj t) ?bn ?sss"
    proof -
      have "br_by_id t1 ?b \<noteq> None"
      proof (cases "make_ss_tuples (branch_key t) (filter (is_matched (filter_obj t) ?bn) ?sss)")
        case (Inl e)
        from on_new_raised[OF wt Inl, of ?b] new r1 show ?thesis by simp
      next
        case (Inr ks)
        from on_new_tracked[OF wt Inr, of ?b] new show ?thesis by auto
      qed
      with seed_loop_frame[OF sl, of t1] Cons.prems(3) show ?thesis by auto
    qed
    then show ?thesis using rest by auto
  qed
qed

lemma seed_loop_idle:
  "build_tracker c = Some t \<Longrightarrow>
   \<forall>breq\<in>set rs. br_by_id t (buildrequestid breq) \<noteq> None \<or>
      \<not> would_track (filter_obj t) (builder_name md (builderid breq))
           (buildset_sourcestamps md (buildsetid breq)) \<Longrightarrow>
   seed_loop md rs c = (Returned, c)"
proof (induction rs)
  case Nil
  then show ?case by simp
next
  case (Cons breq rs)
  have same: "c\<lparr>build_tracker := Some t\<rparr> = c" using Cons.prems(1) by (cases c) simp
  show ?case
  proof (cases "is_buildrequest_tracked t (buildrequestid breq)")
    case True
    then show ?thesis using Cons by simp
  next
    case False
    then have "\<not> would_track (filter_obj t) (builder_name md (builderid breq))
           (buildset_sourcestamps md (buildsetid breq))"
      using Cons.prems(2) by (simp add: is_buildrequest_tracked_def)
    from on_new_untracked[OF this, of "buildrequestid breq"]
    have "on_buildrequest_new md c breq = (Returned, c)"
      using on_buildrequest_new_tracker[OF Cons.prems(1), of md breq] same by simp
    then show ?thesis using Cons False by simp
  qed
qed

lemma unregister_other:
  assumes "unregister b' k m = Inr m'" "b \<noteq> b'"
  shows "map_of (bucket_of m' k2) b = map_of (bucket_of m k2) b"
proof -
  from assms(1) obtain d where d: "m k = Some d"
    and m': "m' = (if AList.delete b' d = [] then m(k := None) else m(k \<mapsto> AList.delete b' d))"
    by (auto simp: unregister_def split: option.splits if_splits)
  have keep: "map_of (AList.delete b' d) b = map_of d b"
    using assms(2) by simp
  show ?thesis
  proof (cases "k2 = k")
    case True
    show ?thesis
    proof (cases "AList.delete b' d = []")
      case e: True
      then have "map_of d b = None" using keep by simp
      then show ?thesis using True e d m' by (simp add: bucket_of_def)
    next
      case False
      then show ?thesis using True d m' keep by (simp add: bucket_of_def)
    qed
  next
    case False
    then show ?thesis using m' by (simp add: bucket_of_def)
  qed
qed

lemma complete_loop_other:
  "complete_loop b' ks m = (r, m') \<Longrightarrow> b \<noteq> b' \<Longrightarrow>
   map_of (bucket_of m' k2) b = map_of (bucket_of m k2) b"
proof (induction ks arbitrary: m)
  case Nil
  then show ?case by simp
next
  case (Cons k ks)
  show ?case
  proof (cases "unregister b' k m")
    case (Inl e)
    then show ?thesis using Cons.prems by simp
  next
    case (Inr m1)
    then have "complete_loop b' ks m1 = (r, m')" using Cons.prems by simp
    from Cons.IH[OF this Cons.prems(2)] unregister_other[OF Inr Cons.prems(2)]
    show ?thesis by simp
  qed
qed

lemma on_complete_other:
  assumes "on_complete_buildrequest t b' = (r, t')" "b \<noteq> b'" "\<forall>b tr. br_by_id t b = Some tr \<longrightarrow> brid_of tr = b"
  shows "br_by_id t' b = br_by_id t b \<and>
         (\<forall>k. map_of (bucket_of (br_by_ss t') k) b = map_of (bucket_of (br_by_ss t) k) b) \<and>
         (\<forall>b tr. br_by_id t' b = Some tr \<longrightarrow> brid_of tr = b) \<and>
         (\<forall>b. br_by_id t' b \<noteq> None \<longrightarrow> br_by_id t b \<noteq> None)"
proof (cases "br_by_id t b'")
  case None
  then show ?thesis using assms by (simp add: on_complete_buildrequest_def)
next
  case (Some tr)
  then have b': "brid_of tr = b'" using assms(3) by simp
  obtain r1 m where cl: "complete_loop b' (ss_tuples tr) (br_by_ss t) = (r1, m)"
    by (cases "complete_loop b' (ss_tuples tr) (br_by_ss t)")
  then have t': "t' = t\<lparr>br_by_id := (br_by_id t)(b' := None), br_by_ss := m\<rparr>"
    using assms(1) Some b' by (simp add: on_complete_buildrequest_def)
  have "map_of (bucket_of m k) b = map_of (bucket_of (br_by_ss t) k) b" for k
    using complete_loop_other[OF cl assms(2)] .
  then show ?thesis using t' assms(2,3) by (auto split: if_splits)
qed

lemma replay_loop_other:
  "replay_loop bs t = (r, t') \<Longrightarrow> b \<notin> set bs \<Longrightarrow>
   \<forall>b tr. br_by_id t b = Some tr \<longrightarrow> brid_of tr = b \<Longrightarrow>
   br_by_id t' b = br_by_id t b \<and>
   (\<forall>k. map_of (bucket_of (br_by_ss t') k) b = map_of (bucket_of (br_by_ss t) k) b) \<and>
   (\<forall>b. br_by_id t' b \<noteq> None \<longrightarrow> br_by_id t b \<noteq> None)"
proof (induction bs arbitrary: t)
  case Nil
  then show ?case by simp
next
  case (Cons b' bs)
  obtain r1 t1 where oc: "on_complete_buildrequest t b' = (r1, t1)"
    by (cases "on_complete_buildrequest t b'")
  have ne: "b \<noteq> b'" and rest: "b \<notin> set bs" using Cons.prems(2) by auto
  note o = on_complete_other[OF oc ne Cons.prems(3)]
  show ?case
  proof (cases r1)
    case (Raised e)
    then have "t' = t1" using Cons.prems(1) oc by simp
    then show ?thesis using o by simp
  next
    case Returned
    then have "replay_loop bs t1 = (r, t')" using Cons.prems(1) oc by simp
    from Cons.IH[OF this rest] o show ?thesis by simp
  qed
qed

lemma on_complete_shrinks:
  "on_complete_buildrequest t b' = (r, t') \<Longrightarrow> br_by_id t' b \<noteq> None \<Longrightarrow> br_by_id t b \<noteq> None"
  by (auto simp: on_complete_buildrequest_def split: option.splits prod.splits if_splits)

lemma replay_loop_shrinks:
  "replay_loop bs t = (r, t') \<Longrightarrow> br_by_id t' b \<noteq> None \<Longrightarrow> br_by_id t b \<noteq> None"
proof (induction bs arbitrary: t)
  case Nil
  then show ?case by simp
next
  case (Cons b' bs)
  obtain r1 t1 where oc: "on_complete_buildrequest t b' = (r1, t1)"
    by (cases "on_complete_buildrequest t b'")
  show ?case
  proof (cases r1)
    case (Raised e)
    then have "t' = t1" using Cons.prems(1) oc by simp
    then show ?thesis using on_complete_shrinks[OF oc] Cons.prems(2) by simp
  next
    case Returned
    then have "replay_loop bs t1 = (r, t')" using Cons.prems(1) oc by simp
    from Cons.IH[OF this Cons.prems(2)] on_complete_shrinks[OF oc] show ?thesis by simp
  qed
qed

lemma on_new_own_ids:
  assumes "own_ids t" "on_new_buildrequest t b bn sss = (r, t')"
  shows "own_ids t'"
proof (cases "would_track (filter_obj t) bn sss")
  case False
  then show ?thesis using assms on_new_untracked[OF False, of b] by simp
next
  case True
  show ?thesis
  proof (cases "make_ss_tuples (branch_key t) (filter (is_matched (filter_obj t) bn) sss)")
    case (Inl e)
    then show ?thesis using assms on_new_raised[OF True Inl, of b] by simp
  next
    case (Inr ks)
    then show ?thesis using assms on_new_tracked[OF True Inr, of b]
      by (auto simp: own_ids_def split: if_splits)
  qed
qed

lemma seed_loop_own_ids:
  "seed_loop md rs c = (r, c') \<Longrightarrow> build_tracker c = Some t \<Longrightarrow> own_ids t \<Longrightarrow>
   build_tracker c' = Some t' \<Longrightarrow> own_ids t'"
proof (induction rs arbitrary: c t)
  case Nil
  then show ?case by simp
next
  case (Cons breq rs)
  show ?case
  proof (cases "is_buildrequest_tracked t (buildrequestid breq)")
    case True
    then have "seed_loop md rs c = (r, c')" using Cons.prems by simp
    from Cons.IH[OF this Cons.prems(2,3,4)] show ?thesis .
  next
    case False
    obtain r1 t1 where new: "on_new_buildrequest t (buildrequestid breq)
        (builder_name md (builderid breq)) (buildset_sourcestamps md (buildsetid breq)) = (r1, t1)"
      by (cases "on_new_buildrequest t (buildrequestid breq)
        (builder_name md (builderid breq)) (buildset_sourcestamps md (buildsetid breq))")
    let ?c1 = "c\<lparr>build_tracker := Some t1\<rparr>"
    have obn: "on_buildrequest_new md c breq = (r1, ?c1)"
      using on_buildrequest_new_tracker[OF Cons.prems(2), of md breq] new by simp
    have o1: "own_ids t1" using on_new_own_ids[OF Cons.prems(3) new] .
    show ?thesis
    proof (cases r1)
      case (Raised e)
      then have "c' = ?c1" using Cons.prems False obn by simp
      then show ?thesis using o1 Cons.prems(4) by simp
    next
      case Returned
      then have "seed_loop md rs ?c1 = (r, c')" using Cons.prems False obn by simp
      from Cons.IH[OF this _ o1 Cons.prems(4)] show ?thesis by simp
    qed
  qed
qed

lemma reconfigService_run:
  assumes sl: "seed_loop md (incomplete_buildrequests md)
               (c\<lparr>reconfiguring := True, build_tracker := Some (installed_tracker c filters bka),
                  completed_buildrequests_while_reconfiguring :=
                    completed_buildrequests_while_reconfiguring c @ arrived\<rparr>) = (r4, c4)"
    and t4: "build_tracker c4 = Some t4"
  shows "reconfigService md arrived c filters bka =
           (case r4 of
              Raised e \<Rightarrow> (Raised e, c4)
            | Returned \<Rightarrow>
                (case replay_loop (completed_buildrequests_while_reconfiguring c @ arrived) t4 of
                   (r, t') \<Rightarrow>
                     (r, c4\<lparr>reconfiguring := False, completed_buildrequests_while_reconfiguring := [],
                            build_tracker := Some t'\<rparr>)))"
proof -
  let ?c3 = "c\<lparr>reconfiguring := True, build_tracker := Some (installed_tracker c filters bka),
                  completed_buildrequests_while_reconfiguring :=
                    completed_buildrequests_while_reconfiguring c @ arrived\<rparr>"
  from seed_loop_frame[OF sl, of "installed_tracker c filters bka"] obtain t' where
    c4: "c4 = ?c3\<lparr>build_tracker := Some t'\<rparr>" by auto
  have q4: "completed_buildrequests_while_reconfiguring c4 =
      completed_buildrequests_while_reconfiguring c @ arrived" using c4 by simp
  have unf: "reconfigService md arrived c filters bka =
      (case seed_loop md (incomplete_buildrequests md) ?c3 of
         (Raised e, c4) \<Rightarrow> (Raised e, c4)
       | (Returned, c4) \<Rightarrow>
           (case build_tracker c4 of
              None \<Rightarrow> (Raised AttributeError,
                        c4\<lparr>reconfiguring := False, completed_buildrequests_while_reconfiguring := []\<rparr>)
            | Some t \<Rightarrow>
                (case replay_loop (completed_buildrequests_while_reconfiguring c4) t of
                   (r, t') \<Rightarrow>
                     (r, c4\<lparr>reconfiguring := False, completed_buildrequests_while_reconfiguring := [],
                            build_tracker := Some t'\<rparr>))))"
    by (simp add: reconfigService_def installed_tracker_def Let_def
        split: prod.splits outcome.splits option.splits)
  show ?thesis
    unfolding unf using sl t4 q4 by (simp split: outcome.splits)
qed

lemma installed_tracker_fields:
  "filter_obj (installed_tracker c filters bka) = filter_tuples_to_filter_set_object filters Map.empty"
  "branch_key (installed_tracker c filters bka) = (case bka of None \<Rightarrow> default_branch_key | Some f \<Rightarrow> f)"
  "build_tracker c = Some t \<Longrightarrow> br_by_id (installed_tracker c filters bka) = br_by_id t"
  "build_tracker c = Some t \<Longrightarrow> br_by_ss (installed_tracker c filters bka) = br_by_ss t"
  "build_tracker c = None \<Longrightarrow> br_by_id (installed_tracker c filters bka) = Map.empty"
  by (simp_all add: installed_tracker_def Let_def new_tracker_def reconfig_def split: option.splits)

lemma installed_tracker_same:
  assumes "build_tracker c = Some t"
    "filter_obj t = filter_tuples_to_filter_set_object filters Map.empty"
    "branch_key t = (case bka of None \<Rightarrow> default_branch_key | Some f \<Rightarrow> f)"
  shows "installed_tracker c filters bka = t"
  using assms by (cases t) (simp add: installed_tracker_def Let_def reconfig_def)

text \<open>
  C9. A reconfiguration, whatever completions are queued or arrive while it runs, leaves
  every tracked request whose completion is not among them as it was, in the id-index and
  in every bucket: no tracked request is evaluated again. Every id tracked afterwards was
  tracked before or is one of the incomplete requests. And when it returns with no
  completion queued or arrived, reconfiguring again with the same filters, branch key and
  incomplete requests returns and changes nothing at all.
\<close>

theorem reconfig_keeps_tracked:
  assumes own: "\<forall>t. build_tracker c = Some t \<longrightarrow> own_ids t"
    and run: "reconfigService md arrived c filters bka = (r, c')"
  shows "(\<forall>t b tr. build_tracker c = Some t \<and> br_by_id t b = Some tr \<and>
            b \<notin> set (completed_buildrequests_while_reconfiguring c @ arrived) \<longrightarrow>
            (\<exists>t'. build_tracker c' = Some t' \<and> br_by_id t' b = Some tr \<and>
                  (\<forall>k. map_of (bucket_of (br_by_ss t') k) b = map_of (bucket_of (br_by_ss t) k) b))) \<and>
         (\<forall>t' b. build_tracker c' = Some t' \<and> br_by_id t' b \<noteq> None \<longrightarrow>
            (\<exists>t. build_tracker c = Some t \<and> br_by_id t b \<noteq> None) \<or>
            b \<in> buildrequestid ` set (incomplete_buildrequests md)) \<and>
         (r = Returned \<and> completed_buildrequests_while_reconfiguring c = [] \<and> arrived = [] \<longrightarrow>
            reconfigService md [] c' filters bka = (Returned, c'))"
proof -
  let ?T0 = "installed_tracker c filters bka"
  let ?Q = "completed_buildrequests_while_reconfiguring c @ arrived"
  let ?c3 = "c\<lparr>reconfiguring := True, build_tracker := Some ?T0,
                completed_buildrequests_while_reconfiguring := ?Q\<rparr>"
  let ?rs = "incomplete_buildrequests md"
  obtain r4 c4 where sl: "seed_loop md ?rs ?c3 = (r4, c4)" by (cases "seed_loop md ?rs ?c3")
  have bt3: "build_tracker ?c3 = Some ?T0" by simp
  from seed_loop_frame[OF sl bt3] obtain t4 where t4:
    "c4 = ?c3\<lparr>build_tracker := Some t4\<rparr>"
    "filter_obj t4 = filter_obj ?T0" "branch_key t4 = branch_key ?T0"
    "\<forall>b. br_by_id ?T0 b \<noteq> None \<longrightarrow>
         br_by_id t4 b = br_by_id ?T0 b \<and>
         (\<forall>k. map_of (bucket_of (br_by_ss t4) k) b = map_of (bucket_of (br_by_ss ?T0) k) b)"
    "\<forall>b. br_by_id t4 b \<noteq> None \<longrightarrow> br_by_id ?T0 b \<noteq> None \<or> b \<in> buildrequestid ` set ?rs"
    by blast
  have bt4: "build_tracker c4 = Some t4" using t4(1) by simp
  have own0: "own_ids ?T0"
  proof (cases "build_tracker c")
    case None
    then show ?thesis using installed_tracker_fields(5)[OF None] by (simp add: own_ids_def)
  next
    case (Some t)
    then show ?thesis using own installed_tracker_fields(3)[OF Some] by (simp add: own_ids_def)
  qed
  have own4: "own_ids t4" using seed_loop_own_ids[OF sl bt3 own0 bt4] .
  obtain r5 t5 where rp: "replay_loop ?Q t4 = (r5, t5)" by (cases "replay_loop ?Q t4")
  define tf where "tf = (if r4 = Returned then t5 else t4)"
  have res: "r = (if r4 = Returned then r5 else r4)"
    "c' = (if r4 = Returned
           then c4\<lparr>reconfiguring := False, completed_buildrequests_while_reconfiguring := [],
                   build_tracker := Some t5\<rparr>
           else c4)"
    using reconfigService_run[OF sl bt4] run rp by (auto split: outcome.splits)
  have bt': "build_tracker c' = Some tf" using res(2) bt4 by (simp add: tf_def)
  have shrink: "br_by_id tf b \<noteq> None \<Longrightarrow> br_by_id t4 b \<noteq> None" for b
    using replay_loop_shrinks[OF rp, of b] by (simp add: tf_def split: if_splits)
  have a: "\<exists>t'. build_tracker c' = Some t' \<and> br_by_id t' b = Some tr \<and>
                  (\<forall>k. map_of (bucket_of (br_by_ss t') k) b = map_of (bucket_of (br_by_ss t) k) b)"
    if "build_tracker c = Some t" "br_by_id t b = Some tr" "b \<notin> set ?Q" for t b tr
  proof -
    have "br_by_id ?T0 b = Some tr" "br_by_ss ?T0 = br_by_ss t"
      using that installed_tracker_fields(3,4)[OF that(1)] by simp_all
    with t4(4) have k4: "br_by_id t4 b = Some tr \<and>
         (\<forall>k. map_of (bucket_of (br_by_ss t4) k) b = map_of (bucket_of (br_by_ss t) k) b)"
      by (metis option.distinct(1))
    have "br_by_id t5 b = br_by_id t4 b \<and>
         (\<forall>k. map_of (bucket_of (br_by_ss t5) k) b = map_of (bucket_of (br_by_ss t4) k) b)"
      using replay_loop_other[OF rp that(3)] own4 unfolding own_ids_def by blast
    with k4 have "br_by_id tf b = Some tr \<and>
         (\<forall>k. map_of (bucket_of (br_by_ss tf) k) b = map_of (bucket_of (br_by_ss t) k) b)"
      by (simp add: tf_def)
    with bt' show ?thesis by blast
  qed
  have b: "(\<exists>t. build_tracker c = Some t \<and> br_by_id t b \<noteq> None) \<or> b \<in> buildrequestid ` set ?rs"
    if "build_tracker c' = Some t'" "br_by_id t' b \<noteq> None" for t' b
  proof -
    have "t' = tf" using that(1) bt' by simp
    with that(2) shrink[of b] t4(5)
    have d: "br_by_id ?T0 b \<noteq> None \<or> b \<in> buildrequestid ` set ?rs" by blast
    show ?thesis
    proof (cases "build_tracker c")
      case None
      then show ?thesis using d installed_tracker_fields(5)[OF None] by simp
    next
      case (Some t)
      then show ?thesis using d installed_tracker_fields(3)[OF Some] by simp
    qed
  qed
  have c: "reconfigService md [] c' filters bka = (Returned, c')"
    if "r = Returned" "completed_buildrequests_while_reconfiguring c = []" "arrived = []"
  proof -
    have Q: "?Q = []" using that(2,3) by simp
    then have t5: "r5 = Returned" "t5 = t4" using rp by simp_all
    have r4: "r4 = Returned" using that(1) res(1) by (cases r4) auto
    have c': "c' = c4\<lparr>reconfiguring := False\<rparr>"
      using res(2) r4 t5 t4(1) Q by simp
    have q': "completed_buildrequests_while_reconfiguring c' = []" using c' t4(1) Q by simp
    have bt'': "build_tracker c' = Some t4" using c' bt4 by simp
    have same: "installed_tracker c' filters bka = t4"
      using installed_tracker_same[OF bt''] t4(2,3) installed_tracker_fields(1,2) by simp
    have c3': "c'\<lparr>reconfiguring := True, build_tracker := Some (installed_tracker c' filters bka),
                  completed_buildrequests_while_reconfiguring :=
                    completed_buildrequests_while_reconfiguring c' @ []\<rparr> = c4"
      unfolding same using c' t4(1) Q by simp
    have "\<forall>breq\<in>set ?rs. br_by_id t4 (buildrequestid breq) \<noteq> None \<or>
      \<not> would_track (filter_obj t4) (builder_name md (builderid breq))
           (buildset_sourcestamps md (buildsetid breq))"
      using seed_loop_settled[OF sl[unfolded r4] bt3 bt4] t4(2) by simp
    from seed_loop_idle[OF bt4 this] have sl': "seed_loop md ?rs c4 = (Returned, c4)" .
    have fin: "c4\<lparr>reconfiguring := False, completed_buildrequests_while_reconfiguring := [],
                 build_tracker := Some t4\<rparr> = c'"
      using c' t4(1) Q by simp
    from reconfigService_run[where md=md and c=c' and filters=filters and bka=bka and arrived="[]"
        and ?r4.0=Returned and ?c4.0=c4 and ?t4.0=t4] sl' c3' bt4 q' fin
    show ?thesis by simp
  qed
  show ?thesis using a b c by blast
qed

lemma ex_canceller1_run:
  "reconfigService ex_md [] ex_canceller0 ex_filter_tuples None = (Returned, ex_canceller1)"
proof -
  have "fst (reconfigService ex_md [] ex_canceller0 ex_filter_tuples None) = Returned"
    by (simp add: reconfigService_def ex_md_def ex_canceller0_def ex_filter_tuples_def Let_def
        on_buildrequest_new_def is_buildrequest_tracked_def new_tracker_def is_matched_def
        filters_for_def on_new_buildrequest_def ex_stamp_def default_branch_key_def bucket_of_def)
  then show ?thesis unfolding ex_canceller1_def by (metis prod.collapse)
qed

lemma ex_canceller1_queue: "completed_buildrequests_while_reconfiguring ex_canceller1 = []"
  by (simp add: ex_canceller1_def reconfigService_def ex_md_def ex_canceller0_def
        ex_filter_tuples_def Let_def
        on_buildrequest_new_def is_buildrequest_tracked_def new_tracker_def is_matched_def
        filters_for_def on_new_buildrequest_def ex_stamp_def default_branch_key_def bucket_of_def)

lemma ex_canceller1_own:
  "\<exists>t. build_tracker ex_canceller1 = Some t \<and> own_ids t \<and> br_by_id t 1 = Some ex_tracked1"
  by (simp add: ex_canceller1_def reconfigService_def ex_md_def ex_canceller0_def
        ex_filter_tuples_def Let_def own_ids_def ex_tracked1_def
        on_buildrequest_new_def is_buildrequest_tracked_def new_tracker_def is_matched_def
        filters_for_def on_new_buildrequest_def ex_stamp_def default_branch_key_def bucket_of_def
        ex_key_def)

theorem reconfig_keeps_tracked_witness:
  "reconfigService ex_md [] ex_canceller0 ex_filter_tuples None = (Returned, ex_canceller1) \<and>
   completed_buildrequests_while_reconfiguring ex_canceller0 = [] \<and>
   reconfigService ex_md [] ex_canceller1 ex_filter_tuples None = (Returned, ex_canceller1) \<and>
   (\<exists>t. build_tracker ex_canceller1 = Some t \<and> own_ids t \<and> br_by_id t 1 = Some ex_tracked1) \<and>
   (1::int) \<notin> set (completed_buildrequests_while_reconfiguring ex_canceller1 @ [2]) \<and>
   (\<exists>t'. build_tracker (snd (reconfigService ex_md [2] ex_canceller1 ex_filter_tuples None)) = Some t' \<and>
         br_by_id t' 1 = Some ex_tracked1)"
proof -
  have q0: "completed_buildrequests_while_reconfiguring ex_canceller0 = []"
    and o0: "\<forall>t. build_tracker ex_canceller0 = Some t \<longrightarrow> own_ids t"
    by (simp_all add: ex_canceller0_def)
  from reconfig_keeps_tracked[OF o0 ex_canceller1_run] q0
  have again: "reconfigService ex_md [] ex_canceller1 ex_filter_tuples None = (Returned, ex_canceller1)"
    by simp
  from ex_canceller1_own obtain t1 where t1: "build_tracker ex_canceller1 = Some t1" "own_ids t1"
    "br_by_id t1 1 = Some ex_tracked1" by blast
  have o1: "\<forall>t. build_tracker ex_canceller1 = Some t \<longrightarrow> own_ids t" using t1 by simp
  have n: "(1::int) \<notin> set (completed_buildrequests_while_reconfiguring ex_canceller1 @ [2])"
    using ex_canceller1_queue by simp
  obtain r c' where run: "reconfigService ex_md [2] ex_canceller1 ex_filter_tuples None = (r, c')"
    by (cases "reconfigService ex_md [2] ex_canceller1 ex_filter_tuples None")
  from reconfig_keeps_tracked[OF o1 run] t1(1,3) n
  have "\<exists>t'. build_tracker c' = Some t' \<and> br_by_id t' 1 = Some ex_tracked1" by blast
  then have "\<exists>t'. build_tracker (snd (reconfigService ex_md [2] ex_canceller1 ex_filter_tuples None)) = Some t' \<and>
         br_by_id t' 1 = Some ex_tracked1"
    using run by simp
  then show ?thesis using ex_canceller1_run q0 again ex_canceller1_own n by blast
qed

section \<open>Properties of the periodic scheduler and of the trigger step\<close>

lemma gaps_ticks:
  "gaps (map fst (periodic_ticks interval t attempts)) =
     map (\<lambda>a. max interval (duration a)) (butlast attempts)"
proof (induction attempts arbitrary: t)
  case Nil
  then show ?case by simp
next
  case (Cons a attempts)
  show ?case
  proof (cases attempts)
    case Nil
    then show ?thesis by simp
  next
    case (Cons b rest)
    have "gaps (map fst (periodic_ticks interval t (a # b # rest))) =
        (fire_time (t + duration a) (t + interval) - t) #
          gaps (map fst (periodic_ticks interval (fire_time (t + duration a) (t + interval)) (b # rest)))"
      by simp
    also have "fire_time (t + duration a) (t + interval) - t = max interval (duration a)"
      by (simp add: fire_time_def max_def)
    finally show ?thesis
      using Cons.IH[of "fire_time (t + duration a) (t + interval)"] Cons by simp
  qed
qed

lemma ticks_any_failure:
  "map fst (periodic_ticks interval t (map (\<lambda>a. a\<lparr>failed := f a\<rparr>) attempts)) =
   map fst (periodic_ticks interval t attempts)"
  by (induction attempts arbitrary: t) simp_all

text \<open>
  C5, as amended. Measured between recorded checkpoints, each build-start attempt comes
  after the one before it by the interval or by the time that earlier call took to
  settle, whichever is larger: exactly the interval after every call that settles within
  it, and a slower call delays the next attempt only. Whether calls fail changes no
  checkpoint.
\<close>

theorem periodic_cadence:
  "gaps (periodic_checkpoints interval checkpoint now attempts) =
     map (\<lambda>a. max interval (duration a)) (butlast attempts) \<and>
   periodic_checkpoints interval checkpoint now (map (\<lambda>a. a\<lparr>failed := f a\<rparr>) attempts) =
     periodic_checkpoints interval checkpoint now attempts"
  by (simp add: periodic_checkpoints_def gaps_ticks ticks_any_failure)

theorem periodic_cadence_counterexample:
  "periodic_checkpoints 10 None 0 slow_start = [0, 15, 25, 35] \<and>
   gaps (periodic_checkpoints 10 None 0 slow_start) = [15, 10, 10] \<and>
   gaps (periodic_checkpoints 10 None 0 slow_start) \<noteq> [10, 10, 10]"
  by (simp add: periodic_checkpoints_def slow_start_def quick_def first_trigger_def fire_time_def)













section \<open>Properties of the calendar scheduler\<close>

lemma spec_examples:
  "calendar_next every_hour now (Some (at 2011 1 1 3 15 0)) = Some (at 2011 1 1 4 0 0)"
  "calendar_next (every_hour\<lparr>minute := Some [4]\<rparr>) now (Some (at 2011 1 1 3 0 0)) =
     Some (at 2011 1 1 3 4 0)"
  "calendar_next (every_hour\<lparr>dayOfMonth := Some [10]\<rparr>) now (Some (at 2011 1 9 3 0 0)) =
     Some (at 2011 1 10 0 0 0)"
  "calendar_next (every_hour\<lparr>dayOfMonth := Some [10]\<rparr>) now (Some (at 2011 1 10 3 0 0)) =
     Some (at 2011 1 10 4 0 0)"
  "calendar_next (every_hour\<lparr>month := Some [4, 6]\<rparr>) now (Some (at 2011 3 30 3 11 0)) =
     Some (at 2011 4 1 0 0 0)"
  by code_simp+

lemma day_ok_fields:
  "year_of i = year_of j \<Longrightarrow> month_of i = month_of j \<Longrightarrow> day_of i = day_of j \<Longrightarrow>
   day_ok spec i = day_ok spec j"
  by (auto simp: day_ok_def split: option.splits)

lemma start_of_next_day_fields:
  "year_of i = year_of j \<Longrightarrow> month_of i = month_of j \<Longrightarrow> day_of i = day_of j \<Longrightarrow>
   start_of_next_day i = start_of_next_day j"
  by (cases i, cases j) (simp add: start_of_next_day_def)

lemma find_minute_unset:
  "minute spec = None \<Longrightarrow> find (minute_ok spec) [m0..<60] = (if m0 = 0 then Some 0 else None)"
proof (cases "m0 = 0")
  case True
  assume "minute spec = None"
  then have "minute_ok spec 0" by (simp add: minute_ok_def)
  then show ?thesis using True by (simp add: upt_conv_Cons)
next
  case False
  assume "minute spec = None"
  then have "\<forall>m\<in>set [m0..<60]. \<not> minute_ok spec m" using False by (auto simp: minute_ok_def)
  then have "find (minute_ok spec) [m0..<60] = None" by (simp add: find_None_iff)
  then show ?thesis using False by simp
qed

lemma find_hour_unset:
  "hour spec = None \<Longrightarrow> find (hour_ok spec) [h..<24] = (if h < 24 then Some h else None)"
  by (cases "h < 24") (simp_all add: hour_ok_def upt_conv_Cons)

lemma first_time_unset:
  "minute spec = None \<Longrightarrow> hour spec = None \<Longrightarrow>
   first_time spec h0 m0 =
     (if m0 = 0 then Some (h0, 0) else if h0 < 23 then Some (h0 + 1, 0) else None)"
  by (simp add: first_time_def find_minute_unset find_hour_unset hour_ok_def)

text \<open>The first whole minute after an instant.\<close>

lemma scan_start:
  "ceil_minute (add_second i) = start_of_next_minute i"
proof (cases "second_of i < 59")
  case True
  have "start_of_next_minute (i\<lparr>second_of := second_of i + 1\<rparr>) = start_of_next_minute i"
    by (cases i) (simp add: start_of_next_minute_def start_of_next_day_def)
  then show ?thesis using True by (simp add: add_second_def ceil_minute_def)
next
  case False
  have "second_of (start_of_next_minute i) = 0"
    by (simp add: start_of_next_minute_def start_of_next_day_def)
  then show ?thesis using False by (simp add: add_second_def ceil_minute_def)
qed

lemma hourly_within_day:
  assumes mu: "minute spec = None" and hu: "hour spec = None"
    and ok: "day_ok spec (next_hour_top prev)"
  shows "calendar_next spec now (Some prev) = Some (next_hour_top prev)"
proof -
  let ?s = "start_of_next_minute prev"
  have lim: "scan_limit = Suc 2927" by (simp add: scan_limit_def)
  show ?thesis
  proof (cases "hour_of prev < 23")
    case h: True
    then have top: "next_hour_top prev = prev\<lparr>hour_of := hour_of prev + 1, minute_of := 0, second_of := 0\<rparr>"
      by (simp add: next_hour_top_def)
    show ?thesis
    proof (cases "minute_of prev < 59")
      case True
      then have s: "?s = prev\<lparr>minute_of := minute_of prev + 1, second_of := 0\<rparr>"
        by (simp add: start_of_next_minute_def)
      have "day_ok spec ?s = day_ok spec (next_hour_top prev)"
        unfolding s top by (rule day_ok_fields) simp_all
      then have "day_ok spec ?s" using ok by simp
      then show ?thesis
        using mu hu h s top
        by (simp add: calendar_next_def scan_start first_time_unset Let_def)
    next
      case False
      then have s: "?s = next_hour_top prev"
        using h by (simp add: start_of_next_minute_def top)
      then show ?thesis
        using mu hu ok top
        by (simp add: calendar_next_def scan_start first_time_unset Let_def)
    qed
  next
    case h: False
    then have top: "next_hour_top prev = start_of_next_day prev" by (simp add: next_hour_top_def)
    have z: "hour_of (start_of_next_day prev) = 0" "minute_of (start_of_next_day prev) = 0"
      "second_of (start_of_next_day prev) = 0"
      by (simp_all add: start_of_next_day_def)
    have same: "(start_of_next_day prev)\<lparr>hour_of := 0, minute_of := 0, second_of := 0\<rparr> =
        start_of_next_day prev"
      using z by (cases "start_of_next_day prev") simp
    have f00: "first_time spec 0 0 = Some (0, 0)" using mu hu by (simp add: first_time_unset)
    have sc: "scan_days scan_limit spec (start_of_next_day prev) = Some (start_of_next_day prev)"
      unfolding lim scan_days.simps using ok top by simp
    show ?thesis
    proof (cases "minute_of prev < 59")
      case True
      then have s: "?s = prev\<lparr>minute_of := minute_of prev + 1, second_of := 0\<rparr>"
        by (simp add: start_of_next_minute_def)
      have nd: "start_of_next_day ?s = start_of_next_day prev"
        unfolding s by (rule start_of_next_day_fields) simp_all
      have ft: "first_time spec (hour_of ?s) (minute_of ?s) = None"
        using mu hu h s by (simp add: first_time_unset)
      have "calendar_next spec now (Some prev) =
          Some ((start_of_next_day prev)\<lparr>hour_of := 0, minute_of := 0, second_of := 0\<rparr>)"
        by (simp add: calendar_next_def scan_start Let_def ft f00 nd sc)
      then show ?thesis using same top by simp
    next
      case False
      then have s: "?s = start_of_next_day prev"
        using h by (simp add: start_of_next_minute_def)
      have "calendar_next spec now (Some prev) =
          Some ((start_of_next_day prev)\<lparr>hour_of := 0, minute_of := 0, second_of := 0\<rparr>)"
        using ok top by (simp add: calendar_next_def scan_start Let_def s z f00)
      then show ?thesis using same top by simp
    qed
  qed
qed

lemma find_from_next:
  "\<not> P h \<Longrightarrow> find P [h..<n] = find P [Suc h..<n]"
  by (cases "h < n") (simp_all add: upt_conv_Cons)

lemma same_day_next_hour:
  assumes mu: "minute spec = None" and ok: "day_ok spec prev"
    and nx: "find (hour_ok spec) [hour_of prev + 1..<24] = Some h'"
  shows "calendar_next spec now (Some prev) =
           Some (prev\<lparr>hour_of := h', minute_of := 0, second_of := 0\<rparr>)"
proof -
  let ?s = "start_of_next_minute prev"
  have h: "hour_of prev < 23"
  proof (rule ccontr)
    assume "\<not> hour_of prev < 23"
    then have "[hour_of prev + 1..<24] = []" by simp
    with nx show False by simp
  qed
  have m0: "find (minute_ok spec) [0..<60] = Some 0" using mu by (simp add: find_minute_unset)
  show ?thesis
  proof (cases "minute_of prev < 59")
    case True
    then have s: "?s = prev\<lparr>minute_of := minute_of prev + 1, second_of := 0\<rparr>"
      by (simp add: start_of_next_minute_def)
    have d: "day_ok spec ?s = day_ok spec prev"
      unfolding s by (rule day_ok_fields) simp_all
    have ft: "first_time spec (hour_of ?s) (minute_of ?s) = Some (h', 0)"
      using mu nx m0 by (simp add: s first_time_def find_minute_unset)
    have "calendar_next spec now (Some prev) =
        Some (?s\<lparr>hour_of := h', minute_of := 0, second_of := 0\<rparr>)"
      using ok d by (simp add: calendar_next_def scan_start Let_def ft)
    then show ?thesis by (simp add: s)
  next
    case False
    then have s: "?s = prev\<lparr>hour_of := hour_of prev + 1, minute_of := 0, second_of := 0\<rparr>"
      using h by (simp add: start_of_next_minute_def)
    have d: "day_ok spec ?s = day_ok spec prev"
      unfolding s by (rule day_ok_fields) simp_all
    have ft: "first_time spec (hour_of ?s) (minute_of ?s) = Some (h', 0)"
    proof (cases "hour_ok spec (hour_of prev + 1)")
      case True
      then have "h' = hour_of prev + 1" using nx h by (simp add: upt_conv_Cons)
      then show ?thesis using True m0 by (simp add: s first_time_def)
    next
      case False
      then have "find (hour_ok spec) [hour_of prev + 1 + 1..<24] = Some h'"
        using nx find_from_next[of "hour_ok spec" "hour_of prev + 1" 24] by simp
      then show ?thesis using False m0 by (simp add: s first_time_def)
    qed
    have "calendar_next spec now (Some prev) =
        Some (?s\<lparr>hour_of := h', minute_of := 0, second_of := 0\<rparr>)"
      using ok d by (simp add: calendar_next_def scan_start Let_def ft)
    then show ?thesis by (simp add: s)
  qed
qed

lemma first_time_ok: "first_time spec h0 m0 = Some (h, m) \<Longrightarrow> minute_ok spec m \<and> hour_ok spec h"
  by (auto simp: first_time_def find_Some_iff split: option.splits if_splits)

lemma scan_days_ok: "scan_days n spec i = Some d \<Longrightarrow> day_ok spec d"
  by (induction n arbitrary: i) (auto split: if_splits)

lemma calendar_next_matches:
  assumes "calendar_next spec now (Some prev) = Some t"
  shows "minute_ok spec (minute_of t) \<and> hour_ok spec (hour_of t) \<and> day_ok spec t \<and> second_of t = 0"
proof -
  from assms obtain s h m where t: "t = s\<lparr>hour_of := h, minute_of := m, second_of := 0\<rparr>"
    and hm: "minute_ok spec m \<and> hour_ok spec h" and d: "day_ok spec s"
    by (auto simp: calendar_next_def Let_def split: option.splits if_splits prod.splits
        dest: first_time_ok scan_days_ok)
  have "day_ok spec t = day_ok spec s" unfolding t by (rule day_ok_fields) simp_all
  then show ?thesis using t hm d by simp
qed

text \<open>
  C6. With the minute and the hour unset the cadence is hourly: after any instant the next
  trigger is the top of the following hour, whenever that hour lies on a qualifying day,
  and always when no field is set. With the minute unset and hours given, the next trigger
  on a qualifying day is minute 0 of the first allowed later hour of that day. Every
  trigger computed with the minute unset is at minute 0, second 0, of an allowed hour on a
  qualifying day. And the next trigger is, whatever the current time: 04:00:00 after
  03:15:00 on 2011-01-01 with no field set; 03:04:00 after 03:00:00 with minute 4;
  2011-01-10 00:00 after 2011-01-09 03:00, and 2011-01-10 04:00 after 2011-01-10 03:00, with
  day of month 10; 2011-04-01 00:00 after 2011-03-30 03:11 with months 4 and 6.
\<close>

theorem calendar_hourly_default:
  "(minute spec = None \<and> hour spec = None \<and> day_ok spec (next_hour_top prev) \<longrightarrow>
      calendar_next spec now (Some prev) = Some (next_hour_top prev)) \<and>
   calendar_next every_hour now (Some prev) = Some (next_hour_top prev) \<and>
   (minute spec = None \<and> day_ok spec prev \<and>
    find (hour_ok spec) [hour_of prev + 1..<24] = Some h' \<longrightarrow>
      calendar_next spec now (Some prev) =
        Some (prev\<lparr>hour_of := h', minute_of := 0, second_of := 0\<rparr>)) \<and>
   (minute spec = None \<longrightarrow>
      (\<forall>t. calendar_next spec now (Some prev) = Some t \<longrightarrow>
           minute_of t = 0 \<and> second_of t = 0 \<and> hour_ok spec (hour_of t) \<and> day_ok spec t)) \<and>
   calendar_next every_hour now (Some (at 2011 1 1 3 15 0)) = Some (at 2011 1 1 4 0 0) \<and>
   calendar_next (every_hour\<lparr>minute := Some [4]\<rparr>) now (Some (at 2011 1 1 3 0 0)) =
     Some (at 2011 1 1 3 4 0) \<and>
   calendar_next (every_hour\<lparr>dayOfMonth := Some [10]\<rparr>) now (Some (at 2011 1 9 3 0 0)) =
     Some (at 2011 1 10 0 0 0) \<and>
   calendar_next (every_hour\<lparr>dayOfMonth := Some [10]\<rparr>) now (Some (at 2011 1 10 3 0 0)) =
     Some (at 2011 1 10 4 0 0) \<and>
   calendar_next (every_hour\<lparr>month := Some [4, 6]\<rparr>) now (Some (at 2011 3 30 3 11 0)) =
     Some (at 2011 4 1 0 0 0)"
proof -
  have a: "minute spec = None \<and> hour spec = None \<and> day_ok spec (next_hour_top prev) \<longrightarrow>
      calendar_next spec now (Some prev) = Some (next_hour_top prev)"
    using hourly_within_day by blast
  have b: "calendar_next every_hour now (Some prev) = Some (next_hour_top prev)"
    by (rule hourly_within_day) (simp_all add: every_hour_def day_ok_def)
  have c: "minute spec = None \<and> day_ok spec prev \<and>
    find (hour_ok spec) [hour_of prev + 1..<24] = Some h' \<longrightarrow>
      calendar_next spec now (Some prev) =
        Some (prev\<lparr>hour_of := h', minute_of := 0, second_of := 0\<rparr>)"
    using same_day_next_hour by blast
  have d: "minute spec = None \<longrightarrow>
      (\<forall>t. calendar_next spec now (Some prev) = Some t \<longrightarrow>
           minute_of t = 0 \<and> second_of t = 0 \<and> hour_ok spec (hour_of t) \<and> day_ok spec t)"
  proof (intro impI allI)
    fix t assume u: "minute spec = None" and n: "calendar_next spec now (Some prev) = Some t"
    from calendar_next_matches[OF n] u
    show "minute_of t = 0 \<and> second_of t = 0 \<and> hour_ok spec (hour_of t) \<and> day_ok spec t"
      by (simp add: minute_ok_def)
  qed
  show ?thesis by (intro conjI) (rule a b c d spec_examples)+
qed

theorem calendar_hourly_default_witness:
  "minute on_the_tenth = None \<and> hour on_the_tenth = None \<and>
   day_ok on_the_tenth (next_hour_top (at 2011 1 10 3 0 0)) \<and>
   next_hour_top (at 2011 1 10 3 0 0) = at 2011 1 10 4 0 0 \<and>
   calendar_next on_the_tenth (at 2011 1 1 0 0 0) (Some (at 2011 1 10 3 0 0)) =
     Some (at 2011 1 10 4 0 0) \<and>
   minute twice_a_day = None \<and> day_ok twice_a_day (at 2011 1 1 7 1 0) \<and>
   find (hour_ok twice_a_day) [hour_of (at 2011 1 1 7 1 0) + 1..<24] = Some 19 \<and>
   calendar_next twice_a_day (at 2011 1 1 0 0 0) (Some (at 2011 1 1 7 1 0)) =
     Some (at 2011 1 1 19 0 0) \<and>
   hour_ok twice_a_day (hour_of (at 2011 1 1 19 0 0)) \<and> minute_of (at 2011 1 1 19 0 0) = 0"
proof -
  note T1 = calendar_hourly_default[of on_the_tenth "at 2011 1 10 3 0 0" "at 2011 1 1 0 0 0"]
  note T2 = calendar_hourly_default[of twice_a_day "at 2011 1 1 7 1 0" "at 2011 1 1 0 0 0" 19]
  have a1: "minute on_the_tenth = None" and a2: "hour on_the_tenth = None"
    by (simp_all add: on_the_tenth_def every_hour_def)
  have top: "next_hour_top (at 2011 1 10 3 0 0) = at 2011 1 10 4 0 0"
    by (simp add: next_hour_top_def at_def)
  have a3: "day_ok on_the_tenth (next_hour_top (at 2011 1 10 3 0 0))"
    unfolding top by (simp add: on_the_tenth_def every_hour_def day_ok_def at_def)
  have r1: "calendar_next on_the_tenth (at 2011 1 1 0 0 0) (Some (at 2011 1 10 3 0 0)) =
      Some (next_hour_top (at 2011 1 10 3 0 0))"
    by (rule T1[THEN conjunct1, THEN mp, OF conjI[OF a1 conjI[OF a2 a3]]])
  have b1: "minute twice_a_day = None"
    by (simp add: twice_a_day_def every_hour_def)
  have b2: "day_ok twice_a_day (at 2011 1 1 7 1 0)"
    by (simp add: twice_a_day_def every_hour_def day_ok_def)
  have b3: "find (hour_ok twice_a_day) [hour_of (at 2011 1 1 7 1 0) + 1..<24] = Some 19"
    by code_simp
  have r2: "calendar_next twice_a_day (at 2011 1 1 0 0 0) (Some (at 2011 1 1 7 1 0)) =
      Some ((at 2011 1 1 7 1 0)\<lparr>hour_of := 19, minute_of := 0, second_of := 0\<rparr>)"
    by (rule T2[THEN conjunct2, THEN conjunct2, THEN conjunct1, THEN mp,
          OF conjI[OF b1 conjI[OF b2 b3]]])
  have e: "(at 2011 1 1 7 1 0)\<lparr>hour_of := 19, minute_of := 0, second_of := 0\<rparr> = at 2011 1 1 19 0 0"
    by (simp add: at_def)
  have r2': "calendar_next twice_a_day (at 2011 1 1 0 0 0) (Some (at 2011 1 1 7 1 0)) =
      Some (at 2011 1 1 19 0 0)"
    using r2 unfolding e .
  have r3: "minute_of (at 2011 1 1 19 0 0) = 0 \<and> second_of (at 2011 1 1 19 0 0) = 0 \<and>
      hour_ok twice_a_day (hour_of (at 2011 1 1 19 0 0)) \<and> day_ok twice_a_day (at 2011 1 1 19 0 0)"
    by (rule T2[THEN conjunct2, THEN conjunct2, THEN conjunct2, THEN conjunct1, THEN mp, OF b1,
          THEN spec, THEN mp, OF r2'])
  have r1': "calendar_next on_the_tenth (at 2011 1 1 0 0 0) (Some (at 2011 1 10 3 0 0)) =
      Some (at 2011 1 10 4 0 0)"
    using r1 unfolding top .
  show ?thesis
    by (intro conjI a1 a2 a3 top r1' b1 b2 b3 r2' r3[THEN conjunct2, THEN conjunct2, THEN conjunct1]
        r3[THEN conjunct1])
qed

end
